theory Spec2Isabelle
  imports Complex_Main "HOL-Library.AList"
begin

section \<open>The signal registry of network/signals.py\<close>

text \<open>
  Every class created with the \<^verbatim>\<open>TypeRegister\<close> metaclass below \<^verbatim>\<open>Signal\<close> owns a
  registry of its own (\<^verbatim>\<open>register_subtype\<close>). A class is named by its place in the
  inheritance chain: \<open>Signal\<close> is the root (\<^verbatim>\<open>highest_signal\<close>), \<open>Sub n p\<close> is the class
  called \<open>n\<close> whose first base (\<^verbatim>\<open>__mro__[1]\<close>) is \<open>p\<close>. A class resolves \<^verbatim>\<open>invoke\<close> and
  \<^verbatim>\<open>on_subscribed\<close> to those of \<^verbatim>\<open>CachedSignal\<close> when \<^verbatim>\<open>CachedSignal\<close> is on its chain.
\<close>

datatype sigcls = Signal | Sub string sigcls

fun is_cached :: "sigcls \<Rightarrow> bool" where
  "is_cached Signal = False"
| "is_cached (Sub n p) = (n = ''CachedSignal'' \<or> is_cached p)"

fun ancestors :: "sigcls \<Rightarrow> sigcls list" where
  "ancestors Signal = []"
| "ancestors (Sub n p) = p # ancestors p"

text \<open>
  Identifiers are hashable objects (\<^verbatim>\<open>Signal.subscribe(self, callback)\<close> passes the
  listener), named by a number. \<^verbatim>\<open>if target:\<close> asks for the truth value of the target:
  \<^verbatim>\<open>None\<close> is false, and so is an object whose \<^verbatim>\<open>__bool__\<close> or \<^verbatim>\<open>__len__\<close> says so.
  Identifier 0 names such an object; every other identifier is true. The other values
  that pass through a dispatch are kept symbolic; they are hashable and are never used
  as identifiers.
\<close>

type_synonym ident = nat

datatype pyval = PyNone | PyInt int | PyStr string | PyObj ident | PyCls sigcls

definition truthy :: "ident option \<Rightarrow> bool" where
  "truthy target = (case target of None \<Rightarrow> False | Some identifier \<Rightarrow> identifier \<noteq> 0)"

type_synonym args = "pyval list"
type_synonym kwargs = "(string \<times> pyval) list"

text \<open>
  A callback is a function object: its \<^verbatim>\<open>__annotations__['signals']\<close> (pairs of a
  signal class and the contextual flag), whether its signature has the parameters
  \<^verbatim>\<open>signal\<close> and \<^verbatim>\<open>target\<close>, and what it does to the registry when it runs. A body
  is a sequence of the four staging operations, which is all a callback is allowed to
  do to a registry while a dispatch is running.
\<close>

datatype 'c regop =
    Subscribe ident 'c
  | Unsubscribe ident 'c
  | SetParent sigcls ident ident
  | RemoveParent sigcls ident ident

datatype callback =
  Callback (cb_name: string) (signals: "(sigcls \<times> bool) list")
           (accepts_signal: bool) (accepts_target: bool) (body: "callback regop list")

type_synonym subscriber_data = "callback \<times> bool \<times> bool"
type_synonym subscriber_dict = "(ident \<times> subscriber_data) list"

text \<open>
  The class attributes set by \<^verbatim>\<open>register_subtype\<close>. A \<^verbatim>\<open>dict\<close> is an association
  list in insertion order (\<open>AList.update\<close> overwrites in place or appends,
  \<^verbatim>\<open>popitem\<close> takes the last entry); a \<^verbatim>\<open>set\<close> is a list without repetition, and the
  order of the list is the order in which the set is iterated. A statement about a
  dispatch over a registry holds for every list, so for every order of iteration.
\<close>

record signal_state =
  subscribers :: subscriber_dict
  isolated_subscribers :: subscriber_dict
  to_subscribe_global :: subscriber_dict
  to_subscribe_context :: subscriber_dict
  to_unsubscribe_context :: "ident list"
  to_unsubscribe_global :: "ident list"
  children :: "(ident \<times> ident list) list"
  to_remove_child :: "(ident \<times> ident) list"
  to_add_child :: "(ident \<times> ident list) list"
  cache :: "(args \<times> ident option \<times> kwargs) list"

definition register_subtype :: signal_state where
  "register_subtype =
     \<lparr>subscribers = [], isolated_subscribers = [], to_subscribe_global = [],
      to_subscribe_context = [], to_unsubscribe_context = [], to_unsubscribe_global = [],
      children = [], to_remove_child = [], to_add_child = [], cache = []\<rparr>"

text \<open>
  One call of a callback, as \<^verbatim>\<open>invoke_signal\<close> makes it: the class that dispatched,
  the function, the positional arguments and the keyword dictionary.
\<close>

record call =
  via :: sigcls
  callee :: callback
  pos_args :: args
  kw_args :: kwargs

record world =
  classes :: "sigcls \<Rightarrow> signal_state"
  calls :: "call list"

datatype error = KeyError | IndexError | RecursionError | TypeError | PathNotFoundException
  | AlgorithmNotImplementedException

datatype outcome = Done world | Raise error world

fun world_of :: "outcome \<Rightarrow> world" where
  "world_of (Done w) = w"
| "world_of (Raise e w) = w"

fun bind :: "outcome \<Rightarrow> (world \<Rightarrow> outcome) \<Rightarrow> outcome" where
  "bind (Done w) f = f w"
| "bind (Raise e w) f = Raise e w"

definition on_class :: "sigcls \<Rightarrow> (signal_state \<Rightarrow> signal_state) \<Rightarrow> world \<Rightarrow> world" where
  "on_class c f w = w\<lparr>classes := (classes w)(c := f (classes w c))\<rparr>"

subsection \<open>Staging operations\<close>

definition set_add :: "'a \<Rightarrow> 'a list \<Rightarrow> 'a list" where
  "set_add x xs = (if x \<in> set xs then xs else xs @ [x])"

definition set_parent :: "sigcls \<Rightarrow> ident \<Rightarrow> ident \<Rightarrow> world \<Rightarrow> world" where
  "set_parent c identifier parent_identifier =
     on_class c (\<lambda>s. s\<lparr>to_add_child :=
       AList.update parent_identifier
         (set_add identifier
            (case map_of (to_add_child s) parent_identifier of None \<Rightarrow> [] | Some cs \<Rightarrow> cs))
         (to_add_child s)\<rparr>)"

definition remove_parent :: "sigcls \<Rightarrow> ident \<Rightarrow> ident \<Rightarrow> world \<Rightarrow> world" where
  "remove_parent c identifier parent_identifier =
     on_class c (\<lambda>s. s\<lparr>to_remove_child :=
       set_add (identifier, parent_identifier) (to_remove_child s)\<rparr>)"

definition subscribe :: "ident \<Rightarrow> callback \<Rightarrow> world \<Rightarrow> world" where
  "subscribe identifier callback =
     fold (\<lambda>(signal_cls, is_context).
             on_class signal_cls (\<lambda>s.
               let data = (callback, accepts_signal callback, accepts_target callback)
               in if is_context
                  then s\<lparr>to_subscribe_context :=
                           AList.update identifier data (to_subscribe_context s)\<rparr>
                  else s\<lparr>to_subscribe_global :=
                           AList.update identifier data (to_subscribe_global s)\<rparr>))
          (signals callback)"

definition unsubscribe_from :: "ident \<Rightarrow> sigcls \<Rightarrow> bool \<Rightarrow> world \<Rightarrow> world" where
  "unsubscribe_from identifier signal_cls is_context w =
     (let w1 = on_class signal_cls (\<lambda>s.
                 if is_context
                 then s\<lparr>to_unsubscribe_global := to_unsubscribe_global s @ [identifier]\<rparr>
                 else s\<lparr>to_unsubscribe_context := to_unsubscribe_context s @ [identifier]\<rparr>) w;
          signal_children = children (classes w1 signal_cls);
          w2 = (case map_of signal_children identifier of
                  None \<Rightarrow> w1
                | Some cs \<Rightarrow> fold (\<lambda>child. remove_parent signal_cls child identifier) cs w1)
      in fold (\<lambda>(parent, next_children) w'.
                 if identifier \<in> set next_children
                 then remove_parent signal_cls identifier parent w' else w')
              signal_children w2)"

definition unsubscribe :: "ident \<Rightarrow> callback \<Rightarrow> world \<Rightarrow> world" where
  "unsubscribe identifier callback =
     fold (\<lambda>(signal_cls, is_context). unsubscribe_from identifier signal_cls is_context)
          (signals callback)"

fun run_op :: "callback regop \<Rightarrow> world \<Rightarrow> world" where
  "run_op (Subscribe i cb) = subscribe i cb"
| "run_op (Unsubscribe i cb) = unsubscribe i cb"
| "run_op (SetParent c i p) = set_parent c i p"
| "run_op (RemoveParent c i p) = remove_parent c i p"

subsection \<open>Dispatch\<close>

definition target_value :: "ident option \<Rightarrow> pyval" where
  "target_value t = (case t of None \<Rightarrow> PyNone | Some i \<Rightarrow> PyObj i)"

definition dict_update :: "('k \<times> 'v) list \<Rightarrow> ('k \<times> 'v) list \<Rightarrow> ('k \<times> 'v) list" where
  "dict_update other d = fold (\<lambda>(k, v). AList.update k v) other d"

definition signal_args :: "sigcls \<Rightarrow> ident option \<Rightarrow> kwargs \<Rightarrow> bool \<Rightarrow> bool \<Rightarrow> kwargs" where
  "signal_args c target kwargs supply_signal supply_target =
     dict_update kwargs
       ((if supply_signal then [(''signal'', PyCls c)] else []) @
        (if supply_target then [(''target'', target_value target)] else []))"

definition invoke_signal ::
  "sigcls \<Rightarrow> args \<Rightarrow> ident option \<Rightarrow> kwargs \<Rightarrow> subscriber_data \<Rightarrow> world \<Rightarrow> world" where
  "invoke_signal c args target kwargs data w =
     (case data of (callback, supply_signal, supply_target) \<Rightarrow>
        fold run_op (body callback)
          (w\<lparr>calls := calls w @
               [\<lparr>via = c, callee = callback, pos_args = args,
                 kw_args = signal_args c target kwargs supply_signal supply_target\<rparr>]\<rparr>))"

text \<open>
  \<^verbatim>\<open>invoke_targets\<close> calls itself for every child of the addressee and has no guard
  against a cycle in \<^verbatim>\<open>children\<close>; the interpreter stops it with a RecursionError when
  its recursion depth is used up. The first argument is the depth that is left.
  \<^verbatim>\<open>cls.children\<close> is read again in every call. The addressee is a value: \<^verbatim>\<open>None\<close>
  stands for the target, an identifier is looked up in \<^verbatim>\<open>target_dict\<close> and in
  \<^verbatim>\<open>cls.children\<close>, and any other value is a key of neither.
\<close>

definition addressee_key :: "ident option \<Rightarrow> pyval \<Rightarrow> ident option" where
  "addressee_key target addressee =
     (case (if addressee = PyNone then target_value target else addressee) of
        PyObj identifier \<Rightarrow> Some identifier
      | _ \<Rightarrow> None)"

fun invoke_targets ::
  "nat \<Rightarrow> sigcls \<Rightarrow> subscriber_dict \<Rightarrow> args \<Rightarrow> ident option \<Rightarrow> pyval \<Rightarrow> kwargs
     \<Rightarrow> world \<Rightarrow> outcome" where
  "invoke_targets 0 c target_dict args target addressee kwargs w = Raise RecursionError w"
| "invoke_targets (Suc d) c target_dict args target addressee kwargs w =
     (case addressee_key target addressee of
        None \<Rightarrow> Done w
      | Some a \<Rightarrow>
          (let w1 = (case map_of target_dict a of
                       None \<Rightarrow> w
                     | Some data \<Rightarrow> invoke_signal c args target kwargs data w)
           in case map_of (children (classes w1 c)) a of
                None \<Rightarrow> Done w1
              | Some cs \<Rightarrow>
                  fold (\<lambda>target_child r.
                          bind r (invoke_targets d c target_dict args target
                                    (PyObj target_child) kwargs))
                       cs (Done w1)))"

definition invoke_general ::
  "sigcls \<Rightarrow> subscriber_dict \<Rightarrow> args \<Rightarrow> ident option \<Rightarrow> kwargs \<Rightarrow> world \<Rightarrow> world" where
  "invoke_general c subscriber_dict args target kwargs =
     fold (\<lambda>(identifier, data). invoke_signal c args target kwargs data) subscriber_dict"


definition call_invoke_targets ::
  "nat \<Rightarrow> sigcls \<Rightarrow> subscriber_dict \<Rightarrow> args \<Rightarrow> ident option \<Rightarrow> kwargs \<Rightarrow> world \<Rightarrow> outcome" where
  "call_invoke_targets d c target_dict args target kwargs w =
     (if map_of kwargs ''target_dict'' \<noteq> None then Raise TypeError w
      else invoke_targets d c target_dict args target
             (case map_of kwargs ''addressee'' of None \<Rightarrow> PyNone | Some addressee \<Rightarrow> addressee)
             (AList.delete ''addressee'' kwargs) w)"

definition call_invoke_general ::
  "sigcls \<Rightarrow> subscriber_dict \<Rightarrow> args \<Rightarrow> ident option \<Rightarrow> kwargs \<Rightarrow> world \<Rightarrow> outcome" where
  "call_invoke_general c subscriber_dict args target kwargs w =
     (if map_of kwargs ''subscriber_dict'' \<noteq> None then Raise TypeError w
      else Done (invoke_general c subscriber_dict args target kwargs w))"

text \<open>
  \<^verbatim>\<open>Signal.invoke\<close> and \<^verbatim>\<open>CachedSignal.invoke\<close>, followed by \<^verbatim>\<open>invoke_parent\<close>: the
  root returns, any other class calls \<^verbatim>\<open>invoke\<close> of its first base with the same
  arguments and without \<^verbatim>\<open>subscriber_data\<close>. \<^verbatim>\<open>Signal.invoke\<close> dispatches to the
  targets under \<^verbatim>\<open>if target:\<close>; \<^verbatim>\<open>CachedSignal.invoke\<close> has no such test, and it alone
  reads \<^verbatim>\<open>subscriber_data\<close>.
\<close>

definition dispatch_here ::
  "nat \<Rightarrow> sigcls \<Rightarrow> subscriber_dict option \<Rightarrow> args \<Rightarrow> ident option \<Rightarrow> kwargs
     \<Rightarrow> world \<Rightarrow> outcome" where
  "dispatch_here d c subscriber_data args target kwargs w =
     (if is_cached c then
        (case subscriber_data of
           None \<Rightarrow>
             (let w1 = on_class c (\<lambda>s. s\<lparr>cache := cache s @ [(args, target, kwargs)]\<rparr>) w
              in bind (call_invoke_targets d c (isolated_subscribers (classes w1 c))
                         args target kwargs w1)
                   (\<lambda>w2. call_invoke_general c (subscribers (classes w2 c))
                            args target kwargs w2))
         | Some info \<Rightarrow> call_invoke_general c info args target kwargs w)
      else
        bind (if truthy target
              then call_invoke_targets d c (isolated_subscribers (classes w c))
                     args target kwargs w
              else Done w)
          (\<lambda>w1. call_invoke_general c (subscribers (classes w1 c)) args target kwargs w1))"

fun invoke ::
  "nat \<Rightarrow> sigcls \<Rightarrow> subscriber_dict option \<Rightarrow> args \<Rightarrow> ident option \<Rightarrow> kwargs
     \<Rightarrow> world \<Rightarrow> outcome" where
  "invoke d Signal subscriber_data args target kwargs w =
     dispatch_here d Signal subscriber_data args target kwargs w"
| "invoke d (Sub n p) subscriber_data args target kwargs w =
     bind (dispatch_here d (Sub n p) subscriber_data args target kwargs w)
       (invoke d p None args target kwargs)"

subsection \<open>Applying the staged mutations\<close>

text \<open>
  \<^verbatim>\<open>Signal.on_subscribed\<close> does nothing. \<^verbatim>\<open>CachedSignal.on_subscribed\<close> returns for a
  contextual subscriber and otherwise calls \<^verbatim>\<open>cls.invoke\<close> with
  \<^verbatim>\<open>subscriber_data={subscriber: data}\<close> for every entry of \<^verbatim>\<open>cls.cache\<close>, in the order
  of the list. Nothing that runs in this loop appends to the cache of the class itself,
  so the loop reads the list as it is when the loop starts.
\<close>

definition on_subscribed ::
  "nat \<Rightarrow> sigcls \<Rightarrow> bool \<Rightarrow> ident \<Rightarrow> subscriber_data \<Rightarrow> world \<Rightarrow> outcome" where
  "on_subscribed d c is_contextual subscriber data w =
     (if is_cached c \<and> \<not> is_contextual then
        fold (\<lambda>(previous_args, target, previous_kwargs) r.
                bind r (invoke d c (Some [(subscriber, data)]) previous_args target
                          previous_kwargs))
             (cache (classes w c)) (Done w)
      else Done w)"

definition apply_subscribe_global :: "nat \<Rightarrow> sigcls \<Rightarrow> world \<Rightarrow> outcome" where
  "apply_subscribe_global d c w =
     (case last (to_subscribe_global (classes w c)) of (identifier, data) \<Rightarrow>
        on_subscribed d c False identifier data
          (on_class c (\<lambda>s. s\<lparr>to_subscribe_global := butlast (to_subscribe_global s),
                              subscribers := AList.update identifier data (subscribers s)\<rparr>) w))"

definition apply_subscribe_context :: "nat \<Rightarrow> sigcls \<Rightarrow> world \<Rightarrow> outcome" where
  "apply_subscribe_context d c w =
     (case last (to_subscribe_context (classes w c)) of (identifier, data) \<Rightarrow>
        on_subscribed d c True identifier data
          (on_class c (\<lambda>s. s\<lparr>to_subscribe_context := butlast (to_subscribe_context s),
                              isolated_subscribers :=
                                AList.update identifier data (isolated_subscribers s)\<rparr>) w))"

text \<open>
  The two \<^verbatim>\<open>while\<close> loops of \<^verbatim>\<open>update_state\<close> run until the pending dictionary is
  empty. A callback that runs in a replay may stage a further subscriber, so a loop
  need not end: \<open>None\<close> is a loop that runs forever.
\<close>

partial_function (option) subscribe_global_loop :: "nat \<Rightarrow> sigcls \<Rightarrow> world \<Rightarrow> outcome option" where
  "subscribe_global_loop d c w =
     (if to_subscribe_global (classes w c) = [] then Some (Done w)
      else (case apply_subscribe_global d c w of
              Done w' \<Rightarrow> subscribe_global_loop d c w'
            | Raise e w' \<Rightarrow> Some (Raise e w')))"

declare subscribe_global_loop.simps [code]

partial_function (option) subscribe_context_loop :: "nat \<Rightarrow> sigcls \<Rightarrow> world \<Rightarrow> outcome option" where
  "subscribe_context_loop d c w =
     (if to_subscribe_context (classes w c) = [] then Some (Done w)
      else (case apply_subscribe_context d c w of
              Done w' \<Rightarrow> subscribe_context_loop d c w'
            | Raise e w' \<Rightarrow> Some (Raise e w')))"

declare subscribe_context_loop.simps [code]

text \<open>
  Removing old subscribers: the keys of \<^verbatim>\<open>to_unsubscribe_context\<close> are popped from
  \<^verbatim>\<open>subscribers\<close>, those of \<^verbatim>\<open>to_unsubscribe_global\<close> from \<^verbatim>\<open>isolated_subscribers\<close>.
\<close>

definition remove_subscribers :: "signal_state \<Rightarrow> signal_state" where
  "remove_subscribers s =
     (let s1 = s\<lparr>subscribers := fold AList.delete (to_unsubscribe_context s) (subscribers s),
                  to_unsubscribe_context := []\<rparr>
      in s1\<lparr>isolated_subscribers :=
              fold AList.delete (to_unsubscribe_global s1) (isolated_subscribers s1),
            to_unsubscribe_global := []\<rparr>)"

text \<open>Adding new children: \<^verbatim>\<open>cls.children.update(cls.to_add_child)\<close>, then \<^verbatim>\<open>clear\<close>.\<close>

definition add_children :: "signal_state \<Rightarrow> signal_state" where
  "add_children s =
     (if to_add_child s \<noteq> []
      then s\<lparr>children := dict_update (to_add_child s) (children s), to_add_child := []\<rparr>
      else s)"

text \<open>
  Removing old children: \<^verbatim>\<open>children[parent]\<close> and \<^verbatim>\<open>set.remove\<close> raise KeyError for an
  edge that is not there, and the edges removed before stay removed;
  \<^verbatim>\<open>to_remove_child\<close> is cleared after the loop, so not when the loop raises.
\<close>

fun remove_edges :: "(ident \<times> ident) list \<Rightarrow> signal_state \<Rightarrow> error option \<times> signal_state" where
  "remove_edges [] s = (None, s)"
| "remove_edges ((child, parent) # rest) s =
     (case map_of (children s) parent of
        None \<Rightarrow> (Some KeyError, s)
      | Some parent_children_dict \<Rightarrow>
          if child \<notin> set parent_children_dict then (Some KeyError, s)
          else (let remaining = removeAll child parent_children_dict
                in remove_edges rest
                     (s\<lparr>children := (if remaining = [] then AList.delete parent (children s)
                                      else AList.update parent remaining (children s))\<rparr>)))"

definition remove_children :: "signal_state \<Rightarrow> error option \<times> signal_state" where
  "remove_children s =
     (if to_remove_child s \<noteq> []
      then (case remove_edges (to_remove_child s) s of
              (Some e, s') \<Rightarrow> (Some e, s')
            | (None, s') \<Rightarrow> (None, s'\<lparr>to_remove_child := []\<rparr>))
      else (None, s))"

definition finish_update :: "sigcls \<Rightarrow> world \<Rightarrow> outcome" where
  "finish_update c w =
     (let w1 = on_class c (\<lambda>s. add_children (remove_subscribers s)) w
      in case remove_children (classes w1 c) of
           (Some e, s') \<Rightarrow> Raise e (on_class c (\<lambda>_. s') w1)
         | (None, s') \<Rightarrow> Done (on_class c (\<lambda>_. s') w1))"

definition update_state :: "nat \<Rightarrow> sigcls \<Rightarrow> world \<Rightarrow> outcome option" where
  "update_state d c w =
     (case subscribe_global_loop d c w of
        None \<Rightarrow> None
      | Some (Raise e w1) \<Rightarrow> Some (Raise e w1)
      | Some (Done w1) \<Rightarrow>
          (case subscribe_context_loop d c w1 of
             None \<Rightarrow> None
           | Some (Raise e w2) \<Rightarrow> Some (Raise e w2)
           | Some (Done w2) \<Rightarrow> Some (finish_update c w2)))"

subsection \<open>Dispatch over a snapshot of the registry\<close>

text \<open>
  The live registry of a class is what a dispatch reads: \<^verbatim>\<open>subscribers\<close>,
  \<^verbatim>\<open>isolated_subscribers\<close> and \<^verbatim>\<open>children\<close>. The functions \<open>frozen_\<dots>\<close> list the calls
  that a dispatch makes when it reads a fixed snapshot of the registry and never the
  classes themselves; the flag is false when the dispatch raises. They are the
  reading of "the observed sets are frozen during an invoke" that the dispatch above is
  compared with.
\<close>

type_synonym registry = "subscriber_dict \<times> subscriber_dict \<times> (ident \<times> ident list) list"

definition live_registry :: "world \<Rightarrow> sigcls \<Rightarrow> registry" where
  "live_registry w c =
     (subscribers (classes w c), isolated_subscribers (classes w c), children (classes w c))"

definition signal_call ::
  "sigcls \<Rightarrow> args \<Rightarrow> ident option \<Rightarrow> kwargs \<Rightarrow> subscriber_data \<Rightarrow> call" where
  "signal_call c args target kwargs data =
     (case data of (callback, supply_signal, supply_target) \<Rightarrow>
        \<lparr>via = c, callee = callback, pos_args = args,
         kw_args = signal_args c target kwargs supply_signal supply_target\<rparr>)"

definition frozen_step ::
  "('a \<Rightarrow> call list \<times> bool) \<Rightarrow> 'a \<Rightarrow> call list \<times> bool \<Rightarrow> call list \<times> bool" where
  "frozen_step g x r =
     (case r of (acc, ok) \<Rightarrow>
        if ok then (case g x of (extra, ok') \<Rightarrow> (acc @ extra, ok')) else (acc, ok))"

definition frozen_then :: "call list \<times> bool \<Rightarrow> call list \<times> bool \<Rightarrow> call list \<times> bool" where
  "frozen_then p q = frozen_step (\<lambda>_. q) () p"

fun frozen_targets ::
  "nat \<Rightarrow> sigcls \<Rightarrow> subscriber_dict \<Rightarrow> (ident \<times> ident list) list \<Rightarrow> args \<Rightarrow> ident option
     \<Rightarrow> pyval \<Rightarrow> kwargs \<Rightarrow> call list \<times> bool" where
  "frozen_targets 0 c target_dict ch args target addressee kwargs = ([], False)"
| "frozen_targets (Suc d) c target_dict ch args target addressee kwargs =
     (case addressee_key target addressee of
        None \<Rightarrow> ([], True)
      | Some a \<Rightarrow>
          (let here = (case map_of target_dict a of
                         None \<Rightarrow> []
                       | Some data \<Rightarrow> [signal_call c args target kwargs data])
           in case map_of ch a of
                None \<Rightarrow> (here, True)
              | Some cs \<Rightarrow>
                  fold (frozen_step (\<lambda>target_child.
                          frozen_targets d c target_dict ch args target (PyObj target_child) kwargs))
                       cs (here, True)))"

definition frozen_general ::
  "sigcls \<Rightarrow> subscriber_dict \<Rightarrow> args \<Rightarrow> ident option \<Rightarrow> kwargs \<Rightarrow> call list" where
  "frozen_general c subscriber_dict args target kwargs =
     map (\<lambda>(identifier, data). signal_call c args target kwargs data) subscriber_dict"

definition frozen_call_targets ::
  "nat \<Rightarrow> sigcls \<Rightarrow> subscriber_dict \<Rightarrow> (ident \<times> ident list) list \<Rightarrow> args \<Rightarrow> ident option
     \<Rightarrow> kwargs \<Rightarrow> call list \<times> bool" where
  "frozen_call_targets d c target_dict ch args target kwargs =
     (if map_of kwargs ''target_dict'' \<noteq> None then ([], False)
      else frozen_targets d c target_dict ch args target
             (case map_of kwargs ''addressee'' of None \<Rightarrow> PyNone | Some addressee \<Rightarrow> addressee)
             (AList.delete ''addressee'' kwargs))"

definition frozen_call_general ::
  "sigcls \<Rightarrow> subscriber_dict \<Rightarrow> args \<Rightarrow> ident option \<Rightarrow> kwargs \<Rightarrow> call list \<times> bool" where
  "frozen_call_general c subscriber_dict args target kwargs =
     (if map_of kwargs ''subscriber_dict'' \<noteq> None then ([], False)
      else (frozen_general c subscriber_dict args target kwargs, True))"

definition frozen_here ::
  "nat \<Rightarrow> sigcls \<Rightarrow> registry \<Rightarrow> subscriber_dict option \<Rightarrow> args \<Rightarrow> ident option \<Rightarrow> kwargs
     \<Rightarrow> call list \<times> bool" where
  "frozen_here d c reg subscriber_data args target kwargs =
     (case reg of (subs, isolated, ch) \<Rightarrow>
        if is_cached c then
          (case subscriber_data of
             None \<Rightarrow> frozen_then (frozen_call_targets d c isolated ch args target kwargs)
                       (frozen_call_general c subs args target kwargs)
           | Some info \<Rightarrow> frozen_call_general c info args target kwargs)
        else
          frozen_then (if truthy target
                       then frozen_call_targets d c isolated ch args target kwargs
                       else ([], True))
            (frozen_call_general c subs args target kwargs))"

fun frozen_invoke ::
  "nat \<Rightarrow> sigcls \<Rightarrow> (sigcls \<Rightarrow> registry) \<Rightarrow> subscriber_dict option \<Rightarrow> args \<Rightarrow> ident option
     \<Rightarrow> kwargs \<Rightarrow> call list \<times> bool" where
  "frozen_invoke d Signal reg subscriber_data args target kwargs =
     frozen_here d Signal (reg Signal) subscriber_data args target kwargs"
| "frozen_invoke d (Sub n p) reg subscriber_data args target kwargs =
     frozen_then (frozen_here d (Sub n p) (reg (Sub n p)) subscriber_data args target kwargs)
       (frozen_invoke d p reg None args target kwargs)"

fun returns :: "outcome \<Rightarrow> bool" where
  "returns (Done w) = True"
| "returns (Raise e w) = False"

definition agrees :: "outcome \<Rightarrow> world \<Rightarrow> call list \<times> bool \<Rightarrow> bool" where
  "agrees r w p \<longleftrightarrow>
     calls (world_of r) = calls w @ fst p \<and> live_registry (world_of r) = live_registry w \<and>
     returns r = snd p"

text \<open>The registries as \<^verbatim>\<open>register_type\<close> and \<^verbatim>\<open>register_subtype\<close> leave them.\<close>

definition initial_world :: world where
  "initial_world = \<lparr>classes = (\<lambda>_. register_subtype), calls = []\<rparr>"

definition returned :: "outcome option \<Rightarrow> world option" where
  "returned r = (case r of Some (Done w) \<Rightarrow> Some w | _ \<Rightarrow> None)"

section \<open>The search of game_system/pathfinding/algorithm.py\<close>

subsection \<open>AStarAlgorithm\<close>

text \<open>
  Nodes are objects, named by a number. What the search asks of them is gathered in a
  record: \<^verbatim>\<open>node.neighbours\<close>, \<^verbatim>\<open>neighbour.get_g_score_from(current)\<close>,
  \<^verbatim>\<open>goal.get_h_score_from(neighbour)\<close>, the value of the attribute \<^verbatim>\<open>g_score\<close> of every
  node when the search starts (the class attribute is 0) and the goal test
  \<^verbatim>\<open>is_finished\<close> of the algorithm object, called as \<^verbatim>\<open>is_complete(current, goal, path)\<close>.
  Scores are integers. The queue \<^verbatim>\<open>f_scored\<close> holds pairs of a score and a node;
  \<^verbatim>\<open>heappop\<close> returns the least pair; two pairs with the same score are compared by
  their nodes, which are taken to define an order, that of their numbers.
\<close>

type_synonym node = nat

record astar_nodes =
  neighbours :: "node \<Rightarrow> node list"
  get_g_score_from :: "node \<Rightarrow> node \<Rightarrow> int"
  get_h_score_from :: "node \<Rightarrow> node \<Rightarrow> int"
  initial_g_score :: "node \<Rightarrow> int"
  is_finished :: "node \<Rightarrow> node \<Rightarrow> (node \<times> node) list \<Rightarrow> bool"

record astar_state =
  open_set :: "node list"
  closed_set :: "node list"
  path :: "(node \<times> node) list"
  f_scored :: "(int \<times> node) list"
  g_score :: "node \<Rightarrow> int"

definition entry_less :: "int \<times> node \<Rightarrow> int \<times> node \<Rightarrow> bool" where
  "entry_less x y \<longleftrightarrow> fst x < fst y \<or> (fst x = fst y \<and> snd x < snd y)"

fun least_entry :: "int \<times> node \<Rightarrow> (int \<times> node) list \<Rightarrow> int \<times> node" where
  "least_entry m [] = m"
| "least_entry m (x # xs) = least_entry (if entry_less x m then x else m) xs"

definition heappush :: "(int \<times> node) list \<Rightarrow> int \<times> node \<Rightarrow> (int \<times> node) list" where
  "heappush heap item = heap @ [item]"

definition heappop :: "(int \<times> node) list \<Rightarrow> (int \<times> node) \<times> (int \<times> node) list" where
  "heappop heap = (let m = least_entry (hd heap) (tl heap) in (m, remove1 m heap))"

text \<open>
  \<^verbatim>\<open>reconstruct_path\<close> follows \<^verbatim>\<open>path.get(node)\<close> until there is no predecessor,
  pushing every node on the left of the result.
\<close>

partial_function (option) reconstruct_from ::
  "node \<Rightarrow> (node \<times> node) list \<Rightarrow> node list \<Rightarrow> node list option" where
  "reconstruct_from n pth result =
     (case map_of pth n of
        None \<Rightarrow> Some (n # result)
      | Some previous \<Rightarrow> reconstruct_from previous pth (n # result))"

declare reconstruct_from.simps [code]

definition reconstruct_path :: "node \<Rightarrow> node \<Rightarrow> (node \<times> node) list \<Rightarrow> node list option" where
  "reconstruct_path n goal pth = reconstruct_from n pth []"

text \<open>The body of \<^verbatim>\<open>for neighbour in current.neighbours\<close>.\<close>

definition relax :: "astar_nodes \<Rightarrow> node \<Rightarrow> node \<Rightarrow> node \<Rightarrow> astar_state \<Rightarrow> astar_state" where
  "relax g goal current neighbour st =
     (if neighbour \<in> set (closed_set st) then st
      else
        (let tentative_g_score = g_score st current + get_g_score_from g neighbour current
         in if neighbour \<notin> set (open_set st) \<or> tentative_g_score < g_score st neighbour
            then st\<lparr>path := AList.update neighbour current (path st),
                    g_score := (g_score st)(neighbour := tentative_g_score),
                    f_scored := heappush (f_scored st)
                                  (tentative_g_score + get_h_score_from g goal neighbour,
                                   neighbour),
                    open_set := set_add neighbour (open_set st)\<rparr>
            else st))"

text \<open>
  The \<^verbatim>\<open>while open_set\<close> loop. \<^verbatim>\<open>heappop\<close> of an empty list raises IndexError,
  \<^verbatim>\<open>open_set.remove(current)\<close> raises KeyError when \<open>current\<close> is not in the set, and
  leaving the loop raises PathNotFoundException. \<open>None\<close> is a search that does not
  return.
\<close>

partial_function (option) astar_loop ::
  "astar_nodes \<Rightarrow> node \<Rightarrow> astar_state \<Rightarrow> (error + node list) option" where
  "astar_loop g goal st =
     (if open_set st = [] then Some (Inl PathNotFoundException)
      else if f_scored st = [] then Some (Inl IndexError)
      else
        (let current = snd (fst (heappop (f_scored st)))
         in if current \<notin> set (open_set st) then Some (Inl KeyError)
            else
              (let st1 = st\<lparr>f_scored := snd (heappop (f_scored st)),
                             open_set := removeAll current (open_set st),
                             closed_set := set_add current (closed_set st)\<rparr>
               in if is_finished g current goal (path st1)
                  then map_option Inr (reconstruct_path current goal (path st1))
                  else astar_loop g goal
                         (fold (relax g goal current) (neighbours g current) st1))))"

declare astar_loop.simps [code]

definition astar_find_path ::
  "astar_nodes \<Rightarrow> node \<Rightarrow> node option \<Rightarrow> (error + node list) option" where
  "astar_find_path g goal start_opt =
     (let start = (case start_opt of None \<Rightarrow> goal | Some s \<Rightarrow> s)
      in astar_loop g goal
           \<lparr>open_set = [start], closed_set = [], path = [], f_scored = [(0, start)],
            g_score = initial_g_score g\<rparr>)"

subsection \<open>Funnel and FunnelAlgorithm\<close>

text \<open>
  Points are vectors, compared with \<^verbatim>\<open>==\<close>. A portal is a pair of points, left and
  right (\<^verbatim>\<open>EndPortal\<close> is a named tuple of the two). \<^verbatim>\<open>triangle_area_squared\<close> is not
  defined in this module: it is the first argument of the functions below.
\<close>

type_synonym 'p portal = "'p \<times> 'p"

record 'p funnel =
  apex :: 'p
  left :: 'p
  right :: 'p
  left_index :: int
  right_index :: int
  index :: int
  funnel_path :: "'p list"

text \<open>
  The body of the loop of \<^verbatim>\<open>Funnel.update\<close> for one portal. Setting \<^verbatim>\<open>apex\<close> calls
  \<^verbatim>\<open>on_apex_changed\<close>, which is \<^verbatim>\<open>path.append\<close>. A branch that ends in \<^verbatim>\<open>continue\<close>
  skips the test of the right side.
\<close>

definition narrow_right :: "('p \<Rightarrow> 'p \<Rightarrow> 'p \<Rightarrow> real) \<Rightarrow> 'p portal \<Rightarrow> 'p funnel \<Rightarrow> 'p funnel" where
  "narrow_right triangle_area_squared portal f =
     (if triangle_area_squared (apex f) (right f) (snd portal) \<le> 0 then
        (if apex f = right f \<or> triangle_area_squared (apex f) (left f) (snd portal) > 0
         then f\<lparr>right := snd portal, right_index := index f\<rparr>
         else f\<lparr>right := left f, apex := left f, funnel_path := funnel_path f @ [left f],
                 index := left_index f\<rparr>)
      else f)"

definition funnel_step :: "('p \<Rightarrow> 'p \<Rightarrow> 'p \<Rightarrow> real) \<Rightarrow> 'p portal \<Rightarrow> 'p funnel \<Rightarrow> 'p funnel" where
  "funnel_step triangle_area_squared portal f =
     (if triangle_area_squared (apex f) (left f) (fst portal) \<ge> 0 then
        (if apex f = left f \<or> triangle_area_squared (apex f) (right f) (fst portal) < 0
         then narrow_right triangle_area_squared portal
                (f\<lparr>left := fst portal, left_index := index f\<rparr>)
         else f\<lparr>left := right f, apex := right f, funnel_path := funnel_path f @ [right f],
                 index := right_index f\<rparr>)
      else narrow_right triangle_area_squared portal f)"

text \<open>
  Modelled from the spec: \<^verbatim>\<open>BidirectionalIterator\<close>, imported from a module that is
  not part of these sources. The loop visits the portals of the sequence in order and
  may set the index of the iteration back to the index where a boundary was last set.
  As the comments of \<^verbatim>\<open>Funnel.update\<close> say, a step of the iteration first increments
  \<^verbatim>\<open>index\<close> and then returns the entry at that index; the iteration stops when there
  is none, and the index before the first step is \<open>-1\<close>.
\<close>

partial_function (option) funnel_loop ::
  "('p \<Rightarrow> 'p \<Rightarrow> 'p \<Rightarrow> real) \<Rightarrow> 'p portal list \<Rightarrow> 'p funnel \<Rightarrow> 'p funnel option" where
  "funnel_loop triangle_area_squared portals f =
     (let i = index f + 1
      in if 0 \<le> i \<and> i < int (length portals)
         then funnel_loop triangle_area_squared portals
                (funnel_step triangle_area_squared (portals ! nat i) (f\<lparr>index := i\<rparr>))
         else Some f)"

declare funnel_loop.simps [code]

definition funnel_update ::
  "('p \<Rightarrow> 'p \<Rightarrow> 'p \<Rightarrow> real) \<Rightarrow> 'p portal list \<Rightarrow> 'p funnel \<Rightarrow> 'p funnel option" where
  "funnel_update triangle_area_squared portals f =
     funnel_loop triangle_area_squared portals
       (f\<lparr>index := -1, left_index := -1, right_index := -1\<rparr>)"

text \<open>
  Modelled from the spec: \<^verbatim>\<open>look_ahead\<close>, imported from network.iterators, which is
  not part of these sources. The portals are derived from consecutive pairs of corridor
  nodes: every node is paired with its successor.
\<close>

definition look_ahead :: "'a list \<Rightarrow> ('a \<times> 'a) list" where
  "look_ahead xs = zip xs (tl xs)"

text \<open>
  \<^verbatim>\<open>FunnelAlgorithm.find_path\<close>; \<^verbatim>\<open>get_portal_to\<close> is a method of the corridor's nodes
  and is passed as an argument.
\<close>

definition corridor_portals :: "('n \<Rightarrow> 'n \<Rightarrow> 'p portal) \<Rightarrow> 'p \<Rightarrow> 'n list \<Rightarrow> 'p portal list" where
  "corridor_portals get_portal_to destination nodes =
     map (\<lambda>(a, b). get_portal_to a b) (look_ahead nodes) @ [(destination, destination)]"

definition funnel_find_path ::
  "('p \<Rightarrow> 'p \<Rightarrow> 'p \<Rightarrow> real) \<Rightarrow> ('n \<Rightarrow> 'n \<Rightarrow> 'p portal) \<Rightarrow> 'p \<Rightarrow> 'p \<Rightarrow> 'n list
     \<Rightarrow> 'p list option" where
  "funnel_find_path triangle_area_squared get_portal_to source destination nodes =
     (let portals = corridor_portals get_portal_to destination nodes
      in case funnel_update triangle_area_squared portals
                \<lparr>apex = source, left = source, right = source, left_index = -1,
                 right_index = -1, index = -1, funnel_path = [source]\<rparr> of
           None \<Rightarrow> None
         | Some f \<Rightarrow> Some (funnel_path f @ [destination]))"

subsection \<open>PathfinderAlgorithm\<close>

text \<open>
  The two algorithm objects are given by their \<^verbatim>\<open>find_path\<close> attribute: \<open>None\<close> is
  an object without it (the lookup raises AttributeError), otherwise the method, which
  returns a result, raises, or does not return. \<^verbatim>\<open>spatial_lookup\<close> is a callable of
  the same kind, and it is called for the source and for the destination before
  anything else. With \<^verbatim>\<open>low_resolution\<close> the corridor is returned, otherwise what the
  high fidelity method returns.
\<close>

datatype ('n, 'p) found = Corridor "'n list" | Points "'p list"

record ('n, 'p, 'g) pathfinder =
  low_resolution :: "('n \<Rightarrow> 'n \<Rightarrow> 'g \<Rightarrow> (error + 'n list) option) option"
  high_resolution :: "('p \<Rightarrow> 'p \<Rightarrow> 'n list \<Rightarrow> (error + 'p list) option) option"
  spatial_lookup :: "'p \<Rightarrow> (error + 'n) option"

definition pathfinder_find_path ::
  "('n, 'p, 'g) pathfinder \<Rightarrow> 'p \<Rightarrow> 'p \<Rightarrow> 'g \<Rightarrow> bool \<Rightarrow> (error + ('n, 'p) found) option" where
  "pathfinder_find_path self source destination nodes low_res =
     (case spatial_lookup self source of
        None \<Rightarrow> None
      | Some (Inl e) \<Rightarrow> Some (Inl e)
      | Some (Inr source_node) \<Rightarrow>
     (case spatial_lookup self destination of
        None \<Rightarrow> None
      | Some (Inl e) \<Rightarrow> Some (Inl e)
      | Some (Inr destination_node) \<Rightarrow>
     (case low_resolution self of
        None \<Rightarrow> Some (Inl AlgorithmNotImplementedException)
      | Some path_finder \<Rightarrow>
          (case path_finder source_node destination_node nodes of
             None \<Rightarrow> None
           | Some (Inl e) \<Rightarrow> Some (Inl e)
           | Some (Inr low_resolution_path) \<Rightarrow>
               if low_res then Some (Inr (Corridor low_resolution_path))
               else
                 (case high_resolution self of
                    None \<Rightarrow> Some (Inl AlgorithmNotImplementedException)
                  | Some path_finder' \<Rightarrow>
                      (case path_finder' source destination low_resolution_path of
                         None \<Rightarrow> None
                       | Some (Inl e) \<Rightarrow> Some (Inl e)
                       | Some (Inr high_resolution_path) \<Rightarrow>
                           Some (Inr (Points high_resolution_path))))))))"

subsection \<open>A graph with a detour\<close>

text \<open>
  Four nodes: from node 0 the edge to node 1 costs 10 and the edge to node 2 costs 1,
  from node 2 the edge to node 1 costs 1, and from node 1 the edge to node 3 costs
  100. The heuristic is 0 everywhere, and every \<^verbatim>\<open>g_score\<close> starts at 0.
\<close>

definition detour_nodes ::
  "(node \<Rightarrow> node \<Rightarrow> (node \<times> node) list \<Rightarrow> bool) \<Rightarrow> astar_nodes" where
  "detour_nodes finished =
     \<lparr>neighbours = (\<lambda>n. if n = 0 then [1, 2] else if n = 2 then [1]
                          else if n = 1 then [3] else []),
      get_g_score_from = (\<lambda>neighbour current.
         if current = 0 \<and> neighbour = 1 then 10
         else if current = 1 \<and> neighbour = 3 then 100 else 1),
      get_h_score_from = (\<lambda>goal n. 0),
      initial_g_score = (\<lambda>n. 0),
      is_finished = finished\<rparr>"

subsection \<open>Measuring the loop of Funnel.update\<close>

text \<open>
  A funnel is degenerate when left, right and apex are one point, as they are when the
  funnel is built and after every pivot. The loop can set \<^verbatim>\<open>index\<close> back only to
  \<^verbatim>\<open>left_index\<close> or \<^verbatim>\<open>right_index\<close>; \<open>restart_bound\<close> is a lower bound of every index
  the loop can still be set back to. A signed area is \<open>flat_area\<close> when the triangle
  on two equal points has area zero.
\<close>

definition degenerate :: "'p funnel \<Rightarrow> bool" where
  "degenerate f \<longleftrightarrow> apex f = left f \<and> apex f = right f"

definition restart_bound :: "'p funnel \<Rightarrow> int" where
  "restart_bound f = (if degenerate f then index f + 1 else min (left_index f) (right_index f))"

definition funnel_inv :: "int \<Rightarrow> 'p funnel \<Rightarrow> bool" where
  "funnel_inv n f \<longleftrightarrow>
     -1 \<le> index f \<and> index f < n \<and> -1 \<le> left_index f \<and> left_index f < n \<and>
     -1 \<le> right_index f \<and> right_index f < n \<and>
     (degenerate f \<or> (left_index f \<le> index f \<and> right_index f \<le> index f))"

definition funnel_progress :: "int \<Rightarrow> 'p funnel \<Rightarrow> 'p funnel \<Rightarrow> bool" where
  "funnel_progress n f f' \<longleftrightarrow>
     funnel_inv n f' \<and>
     (restart_bound f < restart_bound f' \<or>
      (restart_bound f \<le> restart_bound f' \<and> index f < index f')) \<and>
     restart_bound f' \<le> n \<and>
     (\<exists>ys. funnel_path f' = funnel_path f @ ys)"

definition flat_area :: "('p \<Rightarrow> 'p \<Rightarrow> 'p \<Rightarrow> real) \<Rightarrow> bool" where
  "flat_area tri \<longleftrightarrow> (\<forall>a c. tri a a c = 0)"

text \<open>
  \<open>on_portals\<close>: every point that the loop has added to the path lies in a given set of
  points, and so do the two sides of the funnel unless the funnel is degenerate.
\<close>

definition on_portals :: "'p set \<Rightarrow> 'p funnel \<Rightarrow> bool" where
  "on_portals E f \<longleftrightarrow>
     funnel_path f \<noteq> [] \<and> set (tl (funnel_path f)) \<subseteq> E \<and>
     (degenerate f \<or> (left f \<in> E \<and> right f \<in> E))"

text \<open>
  \<open>at_portals\<close>: the points strictly between the first and the last point of a path are
  ends of the portals. \<open>corner_taken\<close>: when the tests of the loop at the second portal
  make it pivot, the point after the source is the end of the first portal that the
  loop pivots around, the right one or the left one.
\<close>

definition at_portals :: "'p portal list \<Rightarrow> 'p list \<Rightarrow> bool" where
  "at_portals portals points \<longleftrightarrow>
     set (butlast (tl points)) \<subseteq> fst ` set portals \<union> snd ` set portals"

definition corner_taken ::
  "('p \<Rightarrow> 'p \<Rightarrow> 'p \<Rightarrow> real) \<Rightarrow> 'p \<Rightarrow> 'p portal list \<Rightarrow> 'p list \<Rightarrow> bool" where
  "corner_taken tri source portals points \<longleftrightarrow>
     (case portals of
        first # second # others \<Rightarrow>
          (tri source (fst first) (fst second) \<ge> 0 \<and> source \<noteq> fst first \<and>
           \<not> tri source (snd first) (fst second) < 0 \<longrightarrow> points ! 1 = snd first) \<and>
          (tri source (fst first) (fst second) < 0 \<and>
           tri source (snd first) (snd second) \<le> 0 \<and> source \<noteq> snd first \<and>
           \<not> tri source (fst first) (snd second) > 0 \<longrightarrow> points ! 1 = fst first)
      | _ \<Rightarrow> True)"

text \<open>
  A corridor of three cells that turns: from the cell of the source through a portal
  from \<open>(0, 2)\<close> to \<open>(2, 2)\<close> and then through a portal from \<open>(3, 4)\<close> to \<open>(3, 2)\<close>,
  with the cross product as area. The cells are numbered 0, 1 and 2.
\<close>

definition cross :: "real \<times> real \<Rightarrow> real \<times> real \<Rightarrow> real \<times> real \<Rightarrow> real" where
  "cross a b c = (fst c - fst a) * (snd b - snd a) - (fst b - fst a) * (snd c - snd a)"

definition bend_portal :: "nat \<Rightarrow> nat \<Rightarrow> (real \<times> real) portal" where
  "bend_portal a b = (if a = 0 then ((0, 2), (2, 2)) else ((3, 4), (3, 2)))"

definition bend_pathfinder :: "(nat, real \<times> real, unit) pathfinder" where
  "bend_pathfinder =
     \<lparr>low_resolution = Some (\<lambda>a b g. Some (Inr [a, 1, b])),
      high_resolution = Some (\<lambda>s d ns. map_option Inr
         (funnel_find_path cross bend_portal s d ns)),
      spatial_lookup = (\<lambda>p. Some (Inr (if fst p < 2 then 0 else 2)))\<rparr>"

subsection \<open>The signal classes of the module\<close>

definition CachedSignal :: sigcls where
  "CachedSignal = Sub ''CachedSignal'' Signal"

definition ReplicableRegisteredSignal :: sigcls where
  "ReplicableRegisteredSignal = Sub ''ReplicableRegisteredSignal'' CachedSignal"

definition ReplicableUnregisteredSignal :: sigcls where
  "ReplicableUnregisteredSignal = Sub ''ReplicableUnregisteredSignal'' Signal"

definition DisconnectSignal :: sigcls where
  "DisconnectSignal = Sub ''DisconnectSignal'' Signal"

subsection \<open>A listener with a child and a grandchild\<close>




subsection \<open>A cached signal with two recorded invocations\<close>

text \<open>
  \<^verbatim>\<open>ReplicableRegisteredSignal\<close> and \<^verbatim>\<open>CachedSignal\<close> have recorded two invocations, and
  the root class has a global subscriber. In \<open>replay_world\<close> listeners 5 and 6 have
  staged global subscriptions to \<^verbatim>\<open>ReplicableRegisteredSignal\<close> and listener 8 a
  contextual one; the callback of listener 5 stages a child when it runs. In
  \<open>contextual_world\<close> the only staged subscription is contextual.
\<close>

definition on_registered :: callback where
  "on_registered =
     Callback ''on_registered'' [(ReplicableRegisteredSignal, False)] True True
       [SetParent ReplicableRegisteredSignal 6 5]"

definition on_any_signal :: callback where
  "on_any_signal = Callback ''on_any_signal'' [(Signal, False)] False False []"

definition on_joined :: callback where
  "on_joined = Callback ''on_joined'' [(ReplicableRegisteredSignal, False)] False False []"

definition on_owned :: callback where
  "on_owned = Callback ''on_owned'' [(ReplicableRegisteredSignal, True)] False True []"

definition replay_world :: world where
  "replay_world =
     \<lparr>classes = (\<lambda>_. register_subtype)
        (ReplicableRegisteredSignal :=
           register_subtype\<lparr>cache := [([PyInt 1], Some 7, []), ([PyInt 2], None, [])],
                            to_subscribe_global := [(5, (on_registered, True, True)),
                                                    (6, (on_joined, False, False))],
                            to_subscribe_context := [(8, (on_owned, False, True))]\<rparr>,
         CachedSignal :=
           register_subtype\<lparr>cache := [([PyInt 1], Some 7, []), ([PyInt 2], None, [])]\<rparr>,
         Signal := register_subtype\<lparr>subscribers := [(9, (on_any_signal, False, False))]\<rparr>),
      calls = []\<rparr>"

text \<open>A callback that listens to \<^verbatim>\<open>CachedSignal\<close> itself, globally.\<close>

definition on_cached :: callback where
  "on_cached = Callback ''on_cached'' [(CachedSignal, False)] False False []"

definition contextual_world :: world where
  "contextual_world =
     \<lparr>classes = (\<lambda>_. register_subtype)
        (ReplicableRegisteredSignal :=
           register_subtype\<lparr>cache := [([PyInt 1], Some 7, []), ([PyInt 2], None, [])],
                            to_subscribe_context := [(5, (on_registered, True, True))]\<rparr>),
      calls = []\<rparr>"

subsection \<open>The replay to new subscribers\<close>

text \<open>
  A callback that stages a global subscription to a class while \<^verbatim>\<open>update_state\<close> of that
  class replays the cache gives the loop of \<^verbatim>\<open>update_state\<close> one more subscriber to apply.
  \<open>replay_quiet\<close>: no callback that the replay can call does so, neither a callback of
  a staged global subscriber of the class nor a callback registered on an ancestor.
  \<open>replay_returns\<close>: the replay of every cached invocation returns, on the registry as
  it stands: its keywords do not stop the call of \<^verbatim>\<open>invoke_general\<close> for the new
  subscriber, and its dispatch returns on every ancestor.
\<close>

fun stages_global :: "sigcls \<Rightarrow> callback regop \<Rightarrow> bool" where
  "stages_global c (Subscribe i cb) = ((c, False) \<in> set (signals cb))"
| "stages_global c (Unsubscribe i cb) = False"
| "stages_global c (SetParent c' i p) = False"
| "stages_global c (RemoveParent c' i p) = False"

definition quiet :: "sigcls \<Rightarrow> subscriber_dict \<Rightarrow> bool" where
  "quiet c subscriber_dict \<longleftrightarrow>
     list_all (\<lambda>(identifier, data). \<not> list_ex (stages_global c) (body (fst data)))
       subscriber_dict"

definition replay_quiet :: "sigcls \<Rightarrow> world \<Rightarrow> bool" where
  "replay_quiet c w \<longleftrightarrow>
     quiet c (to_subscribe_global (classes w c)) \<and>
     list_all (\<lambda>x. quiet c (subscribers (classes w x)) \<and>
                    quiet c (isolated_subscribers (classes w x)))
       (ancestors c)"

definition replay_returns :: "nat \<Rightarrow> sigcls \<Rightarrow> world \<Rightarrow> bool" where
  "replay_returns d c w \<longleftrightarrow>
     list_all (\<lambda>(args, target, kwargs).
                 snd (frozen_invoke d c (live_registry w) (Some []) args target kwargs))
       (cache (classes w c))"

text \<open>
  The calls of a replay: for every staged global subscriber, in the order in which
  \<^verbatim>\<open>popitem\<close> takes them, and for every cached invocation, in the order of the cache, the
  call of the subscriber's callback followed by the calls of the ancestors.
\<close>

definition replay_calls ::
  "nat \<Rightarrow> sigcls \<Rightarrow> (sigcls \<Rightarrow> registry) \<Rightarrow> subscriber_dict
     \<Rightarrow> (args \<times> ident option \<times> kwargs) list \<Rightarrow> call list" where
  "replay_calls d c reg staged cached =
     concat (map (\<lambda>(identifier, data).
               concat (map (\<lambda>(args, target, kwargs).
                         fst (frozen_invoke d c reg (Some [(identifier, data)])
                                args target kwargs))
                       cached))
            (rev staged))"

subsection \<open>The net effect of a batch of staged calls\<close>





section \<open>Properties of the signal registry\<close>

subsection \<open>Staging never touches the live registry\<close>

lemma live_on_class:
  assumes "\<And>s. subscribers (f s) = subscribers s"
    and "\<And>s. isolated_subscribers (f s) = isolated_subscribers s"
    and "\<And>s. children (f s) = children s"
  shows "live_registry (on_class c f w) = live_registry w"
  using assms by (auto simp: live_registry_def on_class_def fun_eq_iff)

lemma live_calls_update [simp]: "live_registry (w\<lparr>calls := cs\<rparr>) = live_registry w"
  by (simp add: live_registry_def fun_eq_iff)

lemma live_set_parent: "live_registry (set_parent c i p w) = live_registry w"
  unfolding set_parent_def by (rule live_on_class) simp_all

lemma live_remove_parent: "live_registry (remove_parent c i p w) = live_registry w"
  unfolding remove_parent_def by (rule live_on_class) simp_all

lemma live_fold:
  assumes "\<And>x w. live_registry (f x w) = live_registry w"
  shows "live_registry (fold f xs w) = live_registry w"
  using assms by (induction xs arbitrary: w) simp_all

lemma live_subscribe: "live_registry (subscribe i cb w) = live_registry w"
  unfolding subscribe_def
  by (rule live_fold) (auto simp: split_def Let_def intro!: live_on_class)

lemma live_unsubscribe_from: "live_registry (unsubscribe_from i c b w) = live_registry w"
  unfolding unsubscribe_from_def Let_def
  by (auto simp: live_fold live_remove_parent split_def split: option.splits intro!: live_on_class
      intro: trans[OF live_fold])

lemma live_unsubscribe: "live_registry (unsubscribe i cb w) = live_registry w"
  unfolding unsubscribe_def
  by (rule live_fold) (auto simp: live_unsubscribe_from)

lemma live_run_op: "live_registry (run_op op w) = live_registry w"
  by (cases op) (simp_all add: live_subscribe live_unsubscribe live_set_parent live_remove_parent)

lemma live_invoke_signal: "live_registry (invoke_signal c a t k data w) = live_registry w"
  unfolding invoke_signal_def by (simp add: split_def live_fold live_run_op)

lemma live_bind:
  assumes "live_registry (world_of r) = L"
    and "\<And>w. live_registry (world_of (f w)) = live_registry w"
  shows "live_registry (world_of (bind r f)) = L"
  using assms by (cases r) simp_all

lemma live_fold_bind:
  assumes "\<And>x w. live_registry (world_of (f x w)) = live_registry w"
    and "live_registry (world_of r) = L"
  shows "live_registry (world_of (fold (\<lambda>x r. bind r (f x)) xs r)) = L"
  using assms(2)
proof (induction xs arbitrary: r)
  case Nil then show ?case by simp
next
  case (Cons x xs)
  have "live_registry (world_of (bind r (f x))) = L"
    using Cons.prems assms(1) by (rule live_bind)
  then show ?case by (simp add: Cons.IH)
qed

lemma live_invoke_targets:
  "live_registry (world_of (invoke_targets d c td a t ad k w)) = live_registry w"
proof (induction d arbitrary: ad w t)
  case 0 show ?case by simp
next
  case (Suc d)
  have step: "live_registry (world_of (fold (\<lambda>x r. bind r (invoke_targets d c td a t (PyObj x) k)) cs (Done w1))) = live_registry w1" for cs w1 t
    by (rule live_fold_bind) (simp_all add: Suc)
  show ?case
    by (auto simp: Let_def live_invoke_signal step split: option.splits)
qed

lemma live_invoke_general: "live_registry (invoke_general c sd a t k w) = live_registry w"
  unfolding invoke_general_def by (rule live_fold) (simp add: split_def live_invoke_signal)

lemma live_call_invoke_targets:
  "live_registry (world_of (call_invoke_targets d c td a t k w)) = live_registry w"
  by (simp add: call_invoke_targets_def live_invoke_targets)

lemma live_call_invoke_general:
  "live_registry (world_of (call_invoke_general c sd a t k w)) = live_registry w"
  by (simp add: call_invoke_general_def live_invoke_general)

lemma live_cache_append:
  "live_registry (on_class c (\<lambda>s. s\<lparr>cache := cache s @ [e]\<rparr>) w) = live_registry w"
  by (rule live_on_class) simp_all

lemma live_dispatch_here:
  "live_registry (world_of (dispatch_here d c sd a t k w)) = live_registry w"
  unfolding dispatch_here_def Let_def
  by (auto split: option.splits simp: live_call_invoke_general live_call_invoke_targets
      live_cache_append intro!: live_bind)

lemma live_invoke: "live_registry (world_of (invoke d c sd a t k w)) = live_registry w"
  by (induction c arbitrary: w sd) (auto simp: live_dispatch_here intro!: live_bind)

lemma calls_on_class [simp]: "calls (on_class c f w) = calls w"
  by (simp add: on_class_def)

lemma calls_fold:
  assumes "\<And>x w. calls (f x w) = calls w"
  shows "calls (fold f xs w) = calls w"
  using assms by (induction xs arbitrary: w) simp_all

lemma calls_run_op: "calls (run_op op w) = calls w"
  by (cases op)
     (auto simp: subscribe_def unsubscribe_def unsubscribe_from_def set_parent_def
        remove_parent_def Let_def split_def calls_fold split: option.splits)

lemma calls_invoke_signal:
  "calls (invoke_signal c a t k data w) = calls w @ [signal_call c a t k data]"
  by (simp add: invoke_signal_def signal_call_def split_def calls_fold calls_run_op)

lemma agrees_fold:
  assumes step: "\<And>x w. live_registry w = L \<Longrightarrow> agrees (f x w) w (g x)"
    and "agrees r w0 p" and "live_registry w0 = L"
  shows "agrees (fold (\<lambda>x r. bind r (f x)) xs r) w0 (fold (frozen_step g) xs p)"
  using assms(2)
proof (induction xs arbitrary: r p)
  case Nil then show ?case by simp
next
  case (Cons x xs)
  have "agrees (bind r (f x)) w0 (frozen_step g x p)"
  proof (cases "snd p")
    case True
    with Cons.prems obtain w1 where r: "r = Done w1" and c1: "calls w1 = calls w0 @ fst p"
      and l1: "live_registry w1 = live_registry w0"
      by (cases r) (auto simp: agrees_def)
    from step[of w1 x] l1 assms(3) have "agrees (f x w1) w1 (g x)" by simp
    with r c1 l1 True show ?thesis
      by (auto simp: agrees_def frozen_step_def split_def)
  next
    case False
    with Cons.prems show ?thesis
      by (cases r) (auto simp: agrees_def frozen_step_def split_def)
  qed
  then show ?case by (simp add: Cons.IH)
qed

lemma agrees_invoke_targets:
  "agrees (invoke_targets d c td a t ad k w) w
     (frozen_targets d c td (children (classes w c)) a t ad k)"
proof (induction d arbitrary: ad w t)
  case 0 show ?case by (simp add: agrees_def)
next
  case (Suc d)
  show ?case
  proof (cases "addressee_key t ad")
    case None then show ?thesis by (simp add: agrees_def)
  next
    case (Some x)
    define w1 where "w1 = (case map_of td x of None \<Rightarrow> w | Some data \<Rightarrow> invoke_signal c a t k data w)"
    define here where "here = (case map_of td x of None \<Rightarrow> [] | Some data \<Rightarrow> [signal_call c a t k data])"
    have l1: "live_registry w1 = live_registry w"
      by (simp add: w1_def live_invoke_signal split: option.splits)
    then have ch: "children (classes w1 c) = children (classes w c)"
      by (simp add: live_registry_def fun_eq_iff)
    have c1: "calls w1 = calls w @ here"
      by (simp add: w1_def here_def calls_invoke_signal split: option.splits)
    have start: "agrees (Done w1) w (here, True)"
      using l1 c1 by (simp add: agrees_def)
    show ?thesis
    proof (cases "map_of (children (classes w c)) x")
      case None
      with Some start ch show ?thesis
        by (simp add: Let_def w1_def[symmetric] here_def[symmetric])
    next
      case Some2: (Some cs)
      have "agrees (fold (\<lambda>y r. bind r (invoke_targets d c td a t (PyObj y) k)) cs (Done w1)) w
              (fold (frozen_step (\<lambda>y. frozen_targets d c td (children (classes w c)) a t (PyObj y) k)) cs (here, True))"
      proof (rule agrees_fold[OF _ start refl])
        fix y w' assume "live_registry w' = live_registry w"
        then have "children (classes w' c) = children (classes w c)"
          by (simp add: live_registry_def fun_eq_iff)
        with Suc[of t "PyObj y" w'] show "agrees (invoke_targets d c td a t (PyObj y) k w') w'
              (frozen_targets d c td (children (classes w c)) a t (PyObj y) k)" by simp
      qed
      with Some Some2 ch show ?thesis
        by (simp add: Let_def w1_def[symmetric] here_def[symmetric])
    qed
  qed
qed

lemma agrees_call_invoke_targets:
  "agrees (call_invoke_targets d c td a t k w) w
     (frozen_call_targets d c td (children (classes w c)) a t k)"
  by (simp add: call_invoke_targets_def frozen_call_targets_def agrees_invoke_targets)
     (simp add: agrees_def)

lemma agrees_bind:
  assumes "agrees r w p" and "\<And>w'. live_registry w' = live_registry w \<Longrightarrow> agrees (f w') w' q"
  shows "agrees (bind r f) w (frozen_then p q)"
  using agrees_fold[where f="\<lambda>_. f" and g="\<lambda>_. q" and xs="[()]", OF assms(2) assms(1) refl]
  by (simp add: frozen_then_def)

lemma calls_invoke_general:
  "calls (invoke_general c sd a t k w) = calls w @ frozen_general c sd a t k"
  unfolding invoke_general_def frozen_general_def
  by (induction sd arbitrary: w) (auto simp: calls_invoke_signal)

lemma agrees_call_invoke_general:
  "agrees (call_invoke_general c sd a t k w) w (frozen_call_general c sd a t k)"
  by (simp add: agrees_def call_invoke_general_def frozen_call_general_def calls_invoke_general
      live_invoke_general)

lemma live_parts:
  "live_registry w' = live_registry w \<Longrightarrow>
     subscribers (classes w' c) = subscribers (classes w c) \<and>
     isolated_subscribers (classes w' c) = isolated_subscribers (classes w c) \<and>
     children (classes w' c) = children (classes w c)"
  by (simp add: live_registry_def fun_eq_iff)

lemma agrees_Done_self: "agrees (Done w) w ([], True)"
  by (simp add: agrees_def)

lemma agrees_shift:
  "agrees r w1 p \<Longrightarrow> live_registry w1 = live_registry w \<Longrightarrow> calls w1 = calls w
     \<Longrightarrow> agrees r w p"
  by (simp add: agrees_def)

lemma agrees_dispatch_here:
  "agrees (dispatch_here d c sd a t k w) w (frozen_here d c (live_registry w c) sd a t k)"
proof -
  let ?w1 = "on_class c (\<lambda>s. s\<lparr>cache := cache s @ [(a, t, k)]\<rparr>) w"
  have l1: "live_registry ?w1 = live_registry w" by (rule live_cache_append)
  have gen: "agrees (call_invoke_general c (subscribers (classes w' c)) a t k w') w'
               (frozen_call_general c (subscribers (classes w c)) a t k)"
    if "live_registry w' = live_registry w" for w'
    using agrees_call_invoke_general[of c "subscribers (classes w' c)" a t k w']
      live_parts[OF that, of c]
    by simp
  have tg: "agrees (call_invoke_targets d c (isolated_subscribers (classes w c)) a t k w) w
      (frozen_call_targets d c (isolated_subscribers (classes w c)) (children (classes w c)) a t k)"
    by (rule agrees_call_invoke_targets)
  have tg1: "agrees (call_invoke_targets d c (isolated_subscribers (classes ?w1 c)) a t k ?w1) w
      (frozen_call_targets d c (isolated_subscribers (classes w c)) (children (classes w c)) a t k)"
    using agrees_call_invoke_targets[of d c "isolated_subscribers (classes ?w1 c)" a t k ?w1]
      live_parts[OF l1, of c] l1
    by (auto intro: agrees_shift)
  show ?thesis
  proof (cases "is_cached c")
    case True
    show ?thesis
    proof (cases sd)
      case None
      with True show ?thesis
        unfolding dispatch_here_def frozen_here_def Let_def live_registry_def
        using agrees_bind[OF tg1 gen] by simp
    next
      case (Some info)
      with True show ?thesis
        unfolding dispatch_here_def frozen_here_def live_registry_def
        by (simp add: agrees_call_invoke_general)
    qed
  next
    case False
    show ?thesis
    proof (cases "truthy t")
      case no: False
      with False show ?thesis
        unfolding dispatch_here_def frozen_here_def live_registry_def
        using agrees_bind[OF agrees_Done_self gen] by simp
    next
      case True
      with False show ?thesis
        unfolding dispatch_here_def frozen_here_def live_registry_def
        using agrees_bind[OF tg gen] by simp
    qed
  qed
qed

lemma agrees_invoke:
  "agrees (invoke d c sd a t k w) w (frozen_invoke d c (live_registry w) sd a t k)"
proof (induction c arbitrary: w sd)
  case Signal
  show ?case by (simp add: agrees_dispatch_here)
next
  case (Sub n p)
  have "agrees (invoke d p None a t k w') w' (frozen_invoke d p (live_registry w) None a t k)"
    if "live_registry w' = live_registry w" for w'
    using Sub[of None w'] that by simp
  then show ?case
    using agrees_bind[OF agrees_dispatch_here] by simp
qed

text \<open>
  C1. The staging operations \<^verbatim>\<open>subscribe\<close>, \<^verbatim>\<open>unsubscribe\<close>, \<^verbatim>\<open>set_parent\<close> and
  \<^verbatim>\<open>remove_parent\<close> leave \<^verbatim>\<open>subscribers\<close>, \<^verbatim>\<open>isolated_subscribers\<close> and \<^verbatim>\<open>children\<close> of
  every class as they are. So does a whole \<^verbatim>\<open>invoke\<close>, whatever staging its callbacks
  do while it runs, and the calls it makes are those of a dispatch that reads the
  registry as it was when the \<^verbatim>\<open>invoke\<close> began.
\<close>

theorem staging_leaves_live_registry:
  "live_registry (run_op op w) = live_registry w \<and>
   live_registry (world_of (invoke d c sd args target kwargs w)) = live_registry w \<and>
   calls (world_of (invoke d c sd args target kwargs w)) =
     calls w @ fst (frozen_invoke d c (live_registry w) sd args target kwargs)"
  using agrees_invoke[of d c sd args target kwargs w]
  by (simp add: live_run_op agrees_def)

subsection \<open>Applying staged children\<close>

lemma subscribe_global_loop_empty:
  "to_subscribe_global (classes w c) = [] \<Longrightarrow> subscribe_global_loop d c w = Some (Done w)"
  by (subst subscribe_global_loop.simps) simp

lemma subscribe_context_loop_empty:
  "to_subscribe_context (classes w c) = [] \<Longrightarrow> subscribe_context_loop d c w = Some (Done w)"
  by (subst subscribe_context_loop.simps) simp

lemma update_state_no_subscribers:
  "to_subscribe_global (classes w c) = [] \<Longrightarrow> to_subscribe_context (classes w c) = [] \<Longrightarrow>
   update_state d c w = Some (finish_update c w)"
  by (simp add: update_state_def subscribe_global_loop_empty subscribe_context_loop_empty
      split: outcome.splits)

text \<open>
  C5. On the root class, \<^verbatim>\<open>set_parent(2, 1)\<close> and \<^verbatim>\<open>update_state\<close> give parent 1 the
  child set \<open>{2}\<close>. A further \<^verbatim>\<open>set_parent(3, 1)\<close> and \<^verbatim>\<open>update_state\<close> leave parent 1
  with the child set \<open>{3}\<close>: \<^verbatim>\<open>children.update(to_add_child)\<close> replaces the set that
  was there, and child 2 is gone.
\<close>

theorem update_state_replaces_children:
  "map_option (\<lambda>w. children (classes w Signal))
     (returned (update_state d Signal (set_parent Signal 2 1 initial_world))) = Some [(1, [2])] \<and>
   map_option (\<lambda>w. children (classes w Signal))
     (Option.bind (returned (update_state d Signal (set_parent Signal 2 1 initial_world)))
        (\<lambda>w1. returned (update_state d Signal (set_parent Signal 3 1 w1)))) = Some [(1, [3])]"
  by (simp add: update_state_no_subscribers finish_update_def initial_world_def returned_def
      set_parent_def on_class_def register_subtype_def remove_subscribers_def add_children_def
      remove_children_def dict_update_def set_add_def Let_def)

section \<open>Properties of the search\<close>

subsection \<open>A stale queue entry\<close>

text \<open>
  C6. On the graph with a detour, searching from node 0 for node 3: node 1 is pushed
  with score 10, relaxed through node 2 and pushed again with score 2. The entry with
  score 2 is popped and node 1 is closed; node 3 enters the open set. The next pop
  returns the stale entry \<open>(10, 1)\<close>, and \<^verbatim>\<open>open_set.remove\<close> raises KeyError.
\<close>

theorem find_path_stale_entry_raises_KeyError:
  "astar_find_path (detour_nodes (\<lambda>current goal pth. current = goal)) 3 (Some 0)
     = Some (Inl KeyError)"
  by (simp add: astar_find_path_def detour_nodes_def astar_loop.simps heappop_def heappush_def
      entry_less_def relax_def set_add_def Let_def)

text \<open>
  C7. On the same graph with a goal test that is false for every node, the search ends
  with the same KeyError while node 3 is still in the open set, and never raises
  PathNotFoundException.
\<close>

theorem find_path_never_finished_raises_KeyError:
  "astar_find_path (detour_nodes (\<lambda>current goal pth. False)) 3 (Some 0) = Some (Inl KeyError)"
  by (simp add: astar_find_path_def detour_nodes_def astar_loop.simps heappop_def heappush_def
      entry_less_def relax_def set_add_def Let_def)

subsection \<open>The hierarchical pathfinder\<close>

text \<open>
  C8, as the claim states it, fails: with a low fidelity algorithm that returns a
  corridor, a high fidelity object without \<^verbatim>\<open>find_path\<close> and \<^verbatim>\<open>low_resolution=True\<close>,
  the corridor is returned and nothing is raised.
\<close>

theorem missing_high_resolution_unnoticed:
  "pathfinder_find_path
     \<lparr>low_resolution = Some (\<lambda>a b g. Some (Inr [a, b])), high_resolution = None,
      spatial_lookup = (\<lambda>p :: nat. Some (Inr (p :: nat)))\<rparr> 0 1 () True
   \<noteq> Some (Inl AlgorithmNotImplementedException)"
  by (simp add: pathfinder_find_path_def)

text \<open>
  C8, amended. Let \<^verbatim>\<open>spatial_lookup\<close> return a node for the source and for the
  destination. Without a low fidelity \<^verbatim>\<open>find_path\<close> the call fails with
  AlgorithmNotImplementedException for every value of the flag. When only the high
  fidelity \<^verbatim>\<open>find_path\<close> is missing and the low fidelity pass returns a corridor, the
  call fails with AlgorithmNotImplementedException for \<^verbatim>\<open>low_resolution=False\<close> and
  returns the corridor for \<^verbatim>\<open>low_resolution=True\<close>. When \<^verbatim>\<open>spatial_lookup\<close> raises for
  the source, or returns for the source and raises for the destination, the call
  raises what the lookup raises, whatever the algorithm objects are.
\<close>

theorem missing_algorithm_not_implemented:
  "(spatial_lookup self source = Some (Inr source_node) \<and>
    spatial_lookup self destination = Some (Inr destination_node) \<longrightarrow>
      (low_resolution self = None \<longrightarrow>
         pathfinder_find_path self source destination nodes low_res
           = Some (Inl AlgorithmNotImplementedException)) \<and>
      (low_resolution self = Some path_finder \<and>
       path_finder source_node destination_node nodes = Some (Inr corridor) \<and>
       high_resolution self = None \<longrightarrow>
         pathfinder_find_path self source destination nodes False
           = Some (Inl AlgorithmNotImplementedException) \<and>
         pathfinder_find_path self source destination nodes True
           = Some (Inr (Corridor corridor)))) \<and>
   (spatial_lookup self source = Some (Inl e) \<longrightarrow>
      pathfinder_find_path self source destination nodes low_res = Some (Inl e)) \<and>
   (spatial_lookup self source = Some (Inr source_node) \<and>
    spatial_lookup self destination = Some (Inl e) \<longrightarrow>
      pathfinder_find_path self source destination nodes low_res = Some (Inl e))"
  by (simp add: pathfinder_find_path_def)

theorem missing_algorithm_not_implemented_witness:
  "pathfinder_find_path
     \<lparr>low_resolution = None, high_resolution = None,
      spatial_lookup = (\<lambda>p :: nat. Some (Inr (p :: nat)))\<rparr>
     0 1 () True = Some (Inl AlgorithmNotImplementedException) \<and>
   pathfinder_find_path
     \<lparr>low_resolution = Some (\<lambda>a b g. Some (Inr [a, b])), high_resolution = None,
      spatial_lookup = (\<lambda>p :: nat. Some (Inr (p :: nat)))\<rparr> 0 1 () False
     = Some (Inl AlgorithmNotImplementedException) \<and>
   pathfinder_find_path
     \<lparr>low_resolution = Some (\<lambda>a b g. Some (Inr [a, b])), high_resolution = None,
      spatial_lookup = (\<lambda>p :: nat. Some (Inr (p :: nat)))\<rparr> 0 1 () True
     = Some (Inr (Corridor [0, 1])) \<and>
   pathfinder_find_path
     \<lparr>low_resolution = None, high_resolution = None,
      spatial_lookup = (\<lambda>p :: nat. if p = 0 then Some (Inr (0 :: nat)) else Some (Inl KeyError))\<rparr>
     0 1 () True = Some (Inl KeyError)"
  using missing_algorithm_not_implemented
    [of "\<lparr>low_resolution = None, high_resolution = None,
          spatial_lookup = (\<lambda>p :: nat. Some (Inr (p :: nat)))\<rparr>"
        0 0 1 1 "()" True "\<lambda>a b g. Some (Inr [a, b])" "[0, 1]" KeyError]
    missing_algorithm_not_implemented
    [of "\<lparr>low_resolution = Some (\<lambda>a b g. Some (Inr [a, b])), high_resolution = None,
          spatial_lookup = (\<lambda>p :: nat. Some (Inr (p :: nat)))\<rparr>"
        0 0 1 1 "()" True "\<lambda>a b g. Some (Inr [a, b])" "[0, 1]" KeyError]
    missing_algorithm_not_implemented
    [of "\<lparr>low_resolution = None, high_resolution = None,
          spatial_lookup = (\<lambda>p :: nat. if p = 0 then Some (Inr (0 :: nat)) else Some (Inl KeyError))\<rparr>"
        0 0 1 1 "()" True "\<lambda>a b g. Some (Inr [a, b])" "[0, 1]" KeyError]
  by simp

subsection \<open>The funnel returns, from source to destination\<close>

lemma narrow_right_outcomes:
  "narrow_right tri p g = g \<or>
   narrow_right tri p g = g\<lparr>right := snd p, right_index := index g\<rparr> \<or>
   narrow_right tri p g = g\<lparr>right := left g, apex := left g,
                              funnel_path := funnel_path g @ [left g], index := left_index g\<rparr>"
  by (simp add: narrow_right_def)

lemma narrow_right_degenerate:
  "tri (apex g) (apex g) (snd p) = 0 \<Longrightarrow> apex g = right g \<Longrightarrow>
   narrow_right tri p g = g\<lparr>right := snd p, right_index := index g\<rparr>"
  by (simp add: narrow_right_def)

lemma funnel_step_outcomes:
  "funnel_step tri p g = g\<lparr>left := right g, apex := right g,
                            funnel_path := funnel_path g @ [right g], index := right_index g\<rparr> \<or>
   funnel_step tri p g = narrow_right tri p (g\<lparr>left := fst p, left_index := index g\<rparr>) \<or>
   funnel_step tri p g = narrow_right tri p g"
  by (simp add: funnel_step_def)

lemma funnel_step_degenerate:
  "tri (apex g) (apex g) (fst p) = 0 \<Longrightarrow> apex g = left g \<Longrightarrow>
   funnel_step tri p g = narrow_right tri p (g\<lparr>left := fst p, left_index := index g\<rparr>)"
  by (simp add: funnel_step_def)

lemmas funnel_progress_defs =
  funnel_progress_def funnel_inv_def restart_bound_def degenerate_def

lemma progress_advanceI:
  assumes "funnel_inv n f" "index f + 1 < n"
    and "index f' = index f + 1"
    and "left_index f' = left_index f \<or> left_index f' = index f + 1"
    and "right_index f' = right_index f \<or> right_index f' = index f + 1"
    and "degenerate f \<longrightarrow> left_index f' = index f + 1 \<and> right_index f' = index f + 1"
    and "funnel_path f' = funnel_path f"
  shows "funnel_progress n f f'"
proof (cases "degenerate f")
  case True
  with assms show ?thesis
    unfolding funnel_progress_def funnel_inv_def restart_bound_def by auto
next
  case False
  with assms show ?thesis
    unfolding funnel_progress_def funnel_inv_def restart_bound_def by auto
qed

lemma progress_restartI:
  assumes "funnel_inv n f" "index f + 1 < n"
    and "degenerate f'" and "restart_bound f \<le> index f'" and "index f' < n"
    and "left_index f' = left_index f \<or> left_index f' = index f + 1"
    and "right_index f' = right_index f \<or> right_index f' = index f + 1"
    and "\<exists>ys. funnel_path f' = funnel_path f @ ys"
  shows "funnel_progress n f f'"
proof -
  have "-1 \<le> restart_bound f"
    using assms(1) unfolding funnel_inv_def restart_bound_def by auto
  with assms show ?thesis
    unfolding funnel_progress_def funnel_inv_def restart_bound_def[of f'] by auto
qed

lemma restart_bound_le_index:
  "funnel_inv n f \<Longrightarrow> restart_bound f \<le> index f + 1"
  unfolding funnel_inv_def restart_bound_def by auto

lemma restart_bound_le_indices:
  "\<not> degenerate f \<Longrightarrow> restart_bound f \<le> left_index f \<and> restart_bound f \<le> right_index f"
  unfolding restart_bound_def by auto

lemma funnel_step_progress:
  fixes p :: "'p portal" and f :: "'p funnel"
  assumes tri: "flat_area tri"
    and inv: "funnel_inv n f" and i: "index f + 1 < n"
  shows "funnel_progress n f (funnel_step tri p (f\<lparr>index := index f + 1\<rparr>))"
proof -
  define g where "g = f\<lparr>index := index f + 1\<rparr>"
  define g2 where "g2 = g\<lparr>left := fst p, left_index := index g\<rparr>"
  note rb = restart_bound_le_index[OF inv]
  show ?thesis
  proof (cases "degenerate f")
    case True
    then have a: "apex g = left g" "apex g = right g"
      by (auto simp: g_def degenerate_def)
    have "funnel_step tri p g = narrow_right tri p g2"
      using funnel_step_degenerate[of tri g p] tri a(1) by (simp add: g2_def flat_area_def)
    also have "\<dots> = g2\<lparr>right := snd p, right_index := index g2\<rparr>"
      by (rule narrow_right_degenerate) (insert a tri, auto simp: flat_area_def g2_def)
    finally have "funnel_step tri p g = g2\<lparr>right := snd p, right_index := index g2\<rparr>" .
    then show ?thesis
      unfolding g_def[symmetric]
      by (auto intro!: progress_advanceI[OF inv i] simp: g_def g2_def)
  next
    case False
    note rbi = restart_bound_le_indices[OF False]
    have nr_g: "funnel_progress n f (narrow_right tri p g)"
      using narrow_right_outcomes[of tri p g]
    proof (elim disjE)
      assume "narrow_right tri p g = g"
      then show ?thesis
        using False by (auto intro!: progress_advanceI[OF inv i] simp: g_def)
    next
      assume "narrow_right tri p g = g\<lparr>right := snd p, right_index := index g\<rparr>"
      then show ?thesis
        using False by (auto intro!: progress_advanceI[OF inv i] simp: g_def)
    next
      assume "narrow_right tri p g = g\<lparr>right := left g, apex := left g,
                funnel_path := funnel_path g @ [left g], index := left_index g\<rparr>"
      then show ?thesis
        using rbi inv by (auto intro!: progress_restartI[OF inv i] simp: g_def degenerate_def funnel_inv_def)
    qed
    have nr_g2: "funnel_progress n f (narrow_right tri p g2)"
      using narrow_right_outcomes[of tri p g2]
    proof (elim disjE)
      assume "narrow_right tri p g2 = g2"
      then show ?thesis
        using False by (auto intro!: progress_advanceI[OF inv i] simp: g_def g2_def)
    next
      assume "narrow_right tri p g2 = g2\<lparr>right := snd p, right_index := index g2\<rparr>"
      then show ?thesis
        using False by (auto intro!: progress_advanceI[OF inv i] simp: g_def g2_def)
    next
      assume "narrow_right tri p g2 = g2\<lparr>right := left g2, apex := left g2,
                funnel_path := funnel_path g2 @ [left g2], index := left_index g2\<rparr>"
      then show ?thesis
        using rb i by (auto intro!: progress_restartI[OF inv i] simp: g_def g2_def degenerate_def)
    qed
    show ?thesis
      using funnel_step_outcomes[of tri p g]
    proof (elim disjE)
      assume "funnel_step tri p g = g\<lparr>left := right g, apex := right g,
                funnel_path := funnel_path g @ [right g], index := right_index g\<rparr>"
      then show ?thesis
        unfolding g_def[symmetric]
        using rbi inv by (auto intro!: progress_restartI[OF inv i] simp: g_def degenerate_def funnel_inv_def)
    next
      assume "funnel_step tri p g = narrow_right tri p (g\<lparr>left := fst p, left_index := index g\<rparr>)"
      then show ?thesis unfolding g_def[symmetric] using nr_g2 by (simp add: g2_def)
    next
      assume "funnel_step tri p g = narrow_right tri p g"
      then show ?thesis unfolding g_def[symmetric] using nr_g by simp
    qed
  qed
qed

lemma funnel_loop_returns:
  fixes portals :: "'p portal list"
  assumes tri: "flat_area tri"
    and inv: "funnel_inv (int (length portals)) f"
  shows "\<exists>f'. funnel_loop tri portals f = Some f' \<and>
              (\<exists>ys. funnel_path f' = funnel_path f @ ys)"
proof -
  let ?n = "int (length portals)"
  let ?R = "measures [\<lambda>f :: 'p funnel. nat (?n + 1 - restart_bound f),
                      \<lambda>f. nat (?n - index f)]"
  have "wf ?R" by simp
  then show ?thesis using inv
  proof (induction f rule: wf_induct_rule)
    case (less f)
    show ?case
    proof (cases "index f + 1 < ?n")
      case False
      then have "funnel_loop tri portals f = Some f"
        by (subst funnel_loop.simps) (simp add: Let_def)
      then show ?thesis by simp
    next
      case True
      let ?f' = "funnel_step tri (portals ! nat (index f + 1)) (f\<lparr>index := index f + 1\<rparr>)"
      have pr: "funnel_progress ?n f ?f'"
        by (rule funnel_step_progress[OF tri less.prems True])
      have rb: "restart_bound f \<le> index f + 1"
        by (rule restart_bound_le_index[OF less.prems])
      have "(?f', f) \<in> ?R"
        using pr rb True less.prems
        unfolding funnel_progress_def funnel_inv_def by auto
      moreover have "funnel_inv ?n ?f'"
        using pr by (simp add: funnel_progress_def)
      ultimately obtain f'' ys where
        f'': "funnel_loop tri portals ?f' = Some f''" "funnel_path f'' = funnel_path ?f' @ ys"
        using less.IH by blast
      have "0 \<le> index f + 1"
        using less.prems by (simp add: funnel_inv_def)
      with True have "funnel_loop tri portals f = funnel_loop tri portals ?f'"
        by (subst funnel_loop.simps) (simp add: Let_def)
      moreover obtain zs where "funnel_path ?f' = funnel_path f @ zs"
        using pr unfolding funnel_progress_def by blast
      ultimately show ?thesis
        using f'' by simp
    qed
  qed
qed

lemma funnel_loop_invariant:
  assumes run: "funnel_loop tri portals f = Some f'"
    and start: "I f"
    and step: "\<And>g. I g \<Longrightarrow> 0 \<le> index g + 1 \<Longrightarrow> index g + 1 < int (length portals) \<Longrightarrow>
                 I (funnel_step tri (portals ! nat (index g + 1)) (g\<lparr>index := index g + 1\<rparr>))"
  shows "I f'"
proof -
  have "tri = tri \<and> portals = portals \<and> I f \<longrightarrow> I f'"
  proof (rule funnel_loop.raw_induct
      [where P = "\<lambda>tri' portals' f f'. tri' = tri \<and> portals' = portals \<and> I f \<longrightarrow> I f'", OF _ run])
    fix loop :: "('a \<Rightarrow> 'a \<Rightarrow> 'a \<Rightarrow> real) \<Rightarrow> 'a portal list \<Rightarrow> 'a funnel \<Rightarrow> 'a funnel option"
      and tri' portals' g g'
    assume IH: "\<And>tri' portals' f f'. loop tri' portals' f = Some f' \<Longrightarrow>
                  tri' = tri \<and> portals' = portals \<and> I f \<longrightarrow> I f'"
      and body: "(let i = index g + 1
                  in if 0 \<le> i \<and> i < int (length portals')
                     then loop tri' portals' (funnel_step tri' (portals' ! nat i) (g\<lparr>index := i\<rparr>))
                     else Some g) = Some g'"
    show "tri' = tri \<and> portals' = portals \<and> I g \<longrightarrow> I g'"
    proof (intro impI, elim conjE)
      assume eq: "tri' = tri" "portals' = portals" and g: "I g"
      show "I g'"
      proof (cases "0 \<le> index g + 1 \<and> index g + 1 < int (length portals)")
        case False
        with body eq have "g' = g" by (auto simp: Let_def)
        with g show ?thesis by simp
      next
        case True
        with body eq have
          "loop tri portals (funnel_step tri (portals ! nat (index g + 1)) (g\<lparr>index := index g + 1\<rparr>)) = Some g'"
          by (simp add: Let_def)
        from IH[OF this] step[OF g] True show ?thesis by simp
      qed
    qed
  qed
  with start show ?thesis by simp
qed

lemma narrow_right_on_portals:
  assumes "funnel_path h \<noteq> []" "set (tl (funnel_path h)) \<subseteq> E"
    and "left h \<in> E" "right h \<in> E" "snd p \<in> E"
  shows "on_portals E (narrow_right tri p h)"
  using narrow_right_outcomes[of tri p h]
proof (elim disjE)
  assume "narrow_right tri p h = h"
  with assms show ?thesis by (simp add: on_portals_def)
next
  assume "narrow_right tri p h = h\<lparr>right := snd p, right_index := index h\<rparr>"
  with assms show ?thesis by (simp add: on_portals_def)
next
  assume "narrow_right tri p h = h\<lparr>right := left h, apex := left h,
            funnel_path := funnel_path h @ [left h], index := left_index h\<rparr>"
  with assms show ?thesis by (simp add: on_portals_def degenerate_def)
qed

lemma funnel_step_on_portals:
  assumes tri: "flat_area tri"
    and inv: "on_portals E f" and p: "fst p \<in> E" "snd p \<in> E"
  shows "on_portals E (funnel_step tri p (f\<lparr>index := i\<rparr>))"
proof -
  define g where "g = f\<lparr>index := i\<rparr>"
  define g2 where "g2 = g\<lparr>left := fst p, left_index := index g\<rparr>"
  from inv have path: "funnel_path g \<noteq> []" "set (tl (funnel_path g)) \<subseteq> E"
    by (simp_all add: on_portals_def g_def)
  then have path2: "funnel_path g2 \<noteq> []" "set (tl (funnel_path g2)) \<subseteq> E"
    by (simp_all add: g2_def)
  show ?thesis
  proof (cases "degenerate f")
    case True
    then have a: "apex g = left g" "apex g = right g"
      by (auto simp: g_def degenerate_def)
    have "funnel_step tri p g = narrow_right tri p g2"
      using funnel_step_degenerate[of tri g p] tri a(1) by (simp add: g2_def flat_area_def)
    also have "\<dots> = g2\<lparr>right := snd p, right_index := index g2\<rparr>"
      by (rule narrow_right_degenerate) (insert a tri, auto simp: flat_area_def g2_def)
    finally have "funnel_step tri p g = g2\<lparr>right := snd p, right_index := index g2\<rparr>" .
    with path p show ?thesis
      unfolding g_def[symmetric] by (simp add: on_portals_def g2_def)
  next
    case False
    with inv have sides: "left g \<in> E" "right g \<in> E"
      by (auto simp: on_portals_def g_def)
    have nr_g: "on_portals E (narrow_right tri p g)"
      by (rule narrow_right_on_portals[OF path sides p(2)])
    have nr_g2: "on_portals E (narrow_right tri p g2)"
      by (rule narrow_right_on_portals[OF path2 _ _ p(2)]) (simp_all add: g2_def p sides)
    show ?thesis
      using funnel_step_outcomes[of tri p g]
    proof (elim disjE)
      assume "funnel_step tri p g = g\<lparr>left := right g, apex := right g,
                funnel_path := funnel_path g @ [right g], index := right_index g\<rparr>"
      with path sides show ?thesis
        unfolding g_def[symmetric] by (simp add: on_portals_def degenerate_def)
    next
      assume "funnel_step tri p g = narrow_right tri p (g\<lparr>left := fst p, left_index := index g\<rparr>)"
      then show ?thesis unfolding g_def[symmetric] using nr_g2 by (simp add: g2_def)
    next
      assume "funnel_step tri p g = narrow_right tri p g"
      then show ?thesis unfolding g_def[symmetric] using nr_g by simp
    qed
  qed
qed

lemma funnel_loop_on_portals:
  assumes tri: "flat_area tri"
    and run: "funnel_loop tri portals f = Some f'"
    and start: "on_portals (fst ` set portals \<union> snd ` set portals) f"
  shows "on_portals (fst ` set portals \<union> snd ` set portals) f'"
proof (rule funnel_loop_invariant
    [where I = "on_portals (fst ` set portals \<union> snd ` set portals)", OF run start])
  fix g :: "'a funnel"
  assume g: "on_portals (fst ` set portals \<union> snd ` set portals) g"
    and i: "0 \<le> index g + 1" "index g + 1 < int (length portals)"
  then have "portals ! nat (index g + 1) \<in> set portals" by simp
  then have "fst (portals ! nat (index g + 1)) \<in> fst ` set portals \<union> snd ` set portals"
    and "snd (portals ! nat (index g + 1)) \<in> fst ` set portals \<union> snd ` set portals"
    by auto
  then show "on_portals (fst ` set portals \<union> snd ` set portals)
               (funnel_step tri (portals ! nat (index g + 1)) (g\<lparr>index := index g + 1\<rparr>))"
    by (rule funnel_step_on_portals[OF tri g])
qed

lemma funnel_first_step:
  assumes tri: "flat_area tri"
  shows "funnel_step tri p
           \<lparr>apex = s, left = s, right = s, left_index = -1, right_index = -1, index = 0,
            funnel_path = [s]\<rparr>
         = \<lparr>apex = s, left = fst p, right = snd p, left_index = 0, right_index = 0, index = 0,
            funnel_path = [s]\<rparr>"
  using tri by (simp add: funnel_step_def narrow_right_def flat_area_def)

lemma funnel_pivot_right:
  assumes "tri s l0 (fst p) \<ge> 0" "s \<noteq> l0" "\<not> tri s r0 (fst p) < 0"
  shows "funnel_step tri p
           \<lparr>apex = s, left = l0, right = r0, left_index = 0, right_index = 0, index = 1,
            funnel_path = [s]\<rparr>
         = \<lparr>apex = r0, left = r0, right = r0, left_index = 0, right_index = 0, index = 0,
            funnel_path = [s, r0]\<rparr>"
  using assms by (simp add: funnel_step_def)

lemma funnel_pivot_left:
  assumes "tri s l0 (fst p) < 0" "tri s r0 (snd p) \<le> 0" "s \<noteq> r0" "\<not> tri s l0 (snd p) > 0"
  shows "funnel_step tri p
           \<lparr>apex = s, left = l0, right = r0, left_index = 0, right_index = 0, index = 1,
            funnel_path = [s]\<rparr>
         = \<lparr>apex = l0, left = l0, right = l0, left_index = 0, right_index = 0, index = 0,
            funnel_path = [s, l0]\<rparr>"
  using assms by (simp add: funnel_step_def narrow_right_def)

lemma funnel_loop_two_steps:
  assumes tri: "flat_area tri"
    and step: "funnel_step tri p1
           \<lparr>apex = s, left = fst p0, right = snd p0, left_index = 0, right_index = 0, index = 1,
            funnel_path = [s]\<rparr>
         = \<lparr>apex = x, left = x, right = x, left_index = 0, right_index = 0, index = 0,
            funnel_path = [s, x]\<rparr>"
  shows "\<exists>f' ys. funnel_loop tri (p0 # p1 # others)
                    \<lparr>apex = s, left = s, right = s, left_index = -1, right_index = -1, index = -1,
                     funnel_path = [s]\<rparr> = Some f' \<and>
                  funnel_path f' = s # x # ys"
proof -
  let ?portals = "p0 # p1 # others"
  let ?f2 = "\<lparr>apex = x, left = x, right = x, left_index = 0, right_index = 0, index = 0,
              funnel_path = [s, x]\<rparr>"
  have "funnel_inv (int (length ?portals)) ?f2"
    by (simp add: funnel_inv_def degenerate_def)
  from funnel_loop_returns[OF tri this]
  obtain f' ys where f': "funnel_loop tri ?portals ?f2 = Some f'" "funnel_path f' = [s, x] @ ys"
    by auto
  have "funnel_loop tri ?portals
          \<lparr>apex = s, left = s, right = s, left_index = -1, right_index = -1, index = -1,
           funnel_path = [s]\<rparr>
        = funnel_loop tri ?portals
            \<lparr>apex = s, left = fst p0, right = snd p0, left_index = 0, right_index = 0, index = 0,
             funnel_path = [s]\<rparr>"
    by (subst funnel_loop.simps) (simp add: Let_def funnel_first_step[OF tri])
  also have "\<dots> = funnel_loop tri ?portals ?f2"
    by (subst funnel_loop.simps) (simp add: Let_def step)
  finally show ?thesis using f' by simp
qed

lemma funnel_find_path_refines:
  assumes tri: "flat_area tri"
  shows "\<exists>points. funnel_find_path tri get_portal_to source destination nodes = Some points \<and>
           hd points = source \<and> last points = destination \<and>
           at_portals (corridor_portals get_portal_to destination nodes) points \<and>
           corner_taken tri source (corridor_portals get_portal_to destination nodes) points"
proof -
  let ?portals = "corridor_portals get_portal_to destination nodes"
  let ?E = "fst ` set ?portals \<union> snd ` set ?portals"
  let ?f0 = "\<lparr>apex = source, left = source, right = source, left_index = -1,
              right_index = -1, index = -1, funnel_path = [source]\<rparr>"
  have "funnel_inv (int (length ?portals)) ?f0"
    by (simp add: funnel_inv_def degenerate_def)
  from funnel_loop_returns[OF tri this]
  obtain f' ys where run: "funnel_loop tri ?portals ?f0 = Some f'"
    and path: "funnel_path f' = source # ys"
    by auto
  have "on_portals ?E ?f0" by (simp add: on_portals_def degenerate_def)
  from funnel_loop_on_portals[OF tri run this] path
  have ys: "set ys \<subseteq> ?E" by (simp add: on_portals_def)
  have points: "funnel_find_path tri get_portal_to source destination nodes
                  = Some (source # ys @ [destination])"
    using run path by (simp add: funnel_find_path_def funnel_update_def Let_def)
  have corner: "corner_taken tri source ?portals (source # ys @ [destination])"
  proof (cases ?portals)
    case Nil
    then show ?thesis by (simp add: corner_taken_def)
  next
    case (Cons p0 rest)
    show ?thesis
    proof (cases rest)
      case Nil
      with Cons show ?thesis by (simp add: corner_taken_def)
    next
      case inner: (Cons p1 others)
      have second: "(ys @ [destination]) ! 0 = x"
        if "funnel_step tri p1
           \<lparr>apex = source, left = fst p0, right = snd p0, left_index = 0, right_index = 0,
            index = 1, funnel_path = [source]\<rparr>
         = \<lparr>apex = x, left = x, right = x, left_index = 0, right_index = 0, index = 0,
            funnel_path = [source, x]\<rparr>" for x
      proof -
        from funnel_loop_two_steps[OF tri that, of others] run Cons inner
        obtain zs where "funnel_path f' = source # x # zs" by auto
        with path have "ys = x # zs" by simp
        then show ?thesis by simp
      qed
      show ?thesis
        unfolding Cons inner corner_taken_def
        using second[OF funnel_pivot_right] second[OF funnel_pivot_left]
        by simp
    qed
  qed
  show ?thesis
    using points ys corner by (simp add: at_portals_def)
qed

text \<open>
  C9. Let \<^verbatim>\<open>spatial_lookup\<close> return a node for the source and for the destination, let
  the low fidelity algorithm return a corridor, and let the high fidelity algorithm
  be the FunnelAlgorithm (over a signed area that is zero on flat triangles). Then
  \<^verbatim>\<open>find_path\<close> with \<^verbatim>\<open>low_resolution=True\<close> returns that very corridor. With
  \<^verbatim>\<open>low_resolution=False\<close> it returns the list of points that the funnel makes of the
  source, the destination and that corridor: the list starts with the source and ends
  with the destination, every point in between lies on a portal between two
  consecutive nodes of the corridor or on the end portal, and when the second portal
  lies beyond a corner of the first, that corner is the point after the source.
\<close>

theorem pathfinder_resolution:
  assumes "spatial_lookup self source = Some (Inr source_node)"
    and "spatial_lookup self destination = Some (Inr destination_node)"
    and "low_resolution self = Some low_finder"
    and "low_finder source_node destination_node nodes = Some (Inr corridor)"
    and "high_resolution self =
           Some (\<lambda>s d ns. map_option Inr (funnel_find_path triangle_area_squared get_portal_to s d ns))"
    and "flat_area triangle_area_squared"
  shows "pathfinder_find_path self source destination nodes True = Some (Inr (Corridor corridor)) \<and>
         (\<exists>points. pathfinder_find_path self source destination nodes False
                      = Some (Inr (Points points)) \<and>
                   funnel_find_path triangle_area_squared get_portal_to source destination corridor
                      = Some points \<and>
                   hd points = source \<and> last points = destination \<and>
                   at_portals (corridor_portals get_portal_to destination corridor) points \<and>
                   corner_taken triangle_area_squared source
                     (corridor_portals get_portal_to destination corridor) points)"
proof -
  obtain points where
    "funnel_find_path triangle_area_squared get_portal_to source destination corridor = Some points"
    "hd points = source" "last points = destination"
    "at_portals (corridor_portals get_portal_to destination corridor) points"
    "corner_taken triangle_area_squared source
       (corridor_portals get_portal_to destination corridor) points"
    using funnel_find_path_refines[OF assms(6)] by blast
  with assms(1-5) show ?thesis
    by (simp add: pathfinder_find_path_def)
qed

lemma bend_refined:
  "funnel_find_path cross bend_portal (1, 0) (5, 1) [0, 1, 2]
     = Some [(1, 0), (2, 2), (3, 2), (5, 1)]"
  by (simp add: funnel_find_path_def funnel_update_def corridor_portals_def look_ahead_def
      bend_portal_def funnel_loop.simps funnel_step_def narrow_right_def cross_def Let_def)

theorem pathfinder_resolution_witness:
  "pathfinder_find_path bend_pathfinder (1, 0) (5, 1) () True = Some (Inr (Corridor [0, 1, 2])) \<and>
   pathfinder_find_path bend_pathfinder (1, 0) (5, 1) () False
     = Some (Inr (Points [(1, 0), (2, 2), (3, 2), (5, 1)]))"
proof -
  have deg: "flat_area cross" by (simp add: flat_area_def cross_def)
  show ?thesis
    using pathfinder_resolution[of bend_pathfinder "(1, 0)" 0 "(5, 1)" 2
        "\<lambda>a b g. Some (Inr [a, 1, b])" "()" "[0, 1, 2]" cross bend_portal, OF _ _ _ _ _ deg]
      bend_refined
    by (simp add: bend_pathfinder_def)
qed

section \<open>Properties of the dispatch\<close>

subsection \<open>Targeted dispatch through the forest\<close>

lemma frozen_then_simps [simp]:
  "frozen_then (acc, True) (extra, ok) = (acc @ extra, ok)"
  "frozen_then (acc, False) q = (acc, False)"
  by (simp_all add: frozen_then_def frozen_step_def)

lemma frozen_step_simps [simp]:
  "frozen_step g x (acc, False) = (acc, False)"
  "frozen_step g x (acc, True) = (acc @ fst (g x), snd (g x))"
  by (simp_all add: frozen_step_def split_def)

lemma frozen_then_nothing [simp]: "frozen_then p ([], True) = p"
  by (cases p; cases "snd p") auto





lemma addressee_key_target [simp]: "addressee_key (Some P) PyNone = Some P"
  by (simp add: addressee_key_def target_value_def)

lemma addressee_key_child [simp]: "addressee_key t (PyObj x) = Some x"
  by (simp add: addressee_key_def)







subsection \<open>The replay of a cached signal\<close>

lemma ancestors_smaller: "a \<in> set (ancestors c) \<Longrightarrow> size a < size c"
  by (induction c) auto

lemma not_own_ancestor: "c \<notin> set (ancestors c)"
  using ancestors_smaller[of c c] by auto

lemma via_frozen_general: "e \<in> set (frozen_general c sd a t k) \<Longrightarrow> via e = c"
  by (auto simp: frozen_general_def signal_call_def split_def)

lemma via_frozen_fold:
  assumes "\<And>x e. e \<in> set (fst (g x)) \<Longrightarrow> via e = c"
    and "\<forall>e \<in> set (fst p). via e = c"
  shows "\<forall>e \<in> set (fst (fold (frozen_step g) xs p)). via e = c"
  using assms(2)
proof (induction xs arbitrary: p)
  case Nil then show ?case by simp
next
  case (Cons x xs)
  have "\<forall>e \<in> set (fst (frozen_step g x p)). via e = c"
    using Cons.prems assms(1)[of _ x] by (cases p; cases "snd p") auto
  then show ?case by (simp add: Cons.IH)
qed

lemma via_frozen_targets:
  "e \<in> set (fst (frozen_targets d c td ch a t ad k)) \<Longrightarrow> via e = c"
proof (induction d arbitrary: ad e t)
  case 0 then show ?case by simp
next
  case (Suc d)
  have fold: "via e = c"
    if "\<forall>e \<in> set here. via e = c"
      and "e \<in> set (fst (fold (frozen_step (\<lambda>x. frozen_targets d c td ch a t (PyObj x) k)) cs (here, True)))"
    for cs here e t
    using via_frozen_fold[of "\<lambda>x. frozen_targets d c td ch a t (PyObj x) k" c "(here, True)" cs]
      Suc.IH that by auto
  show ?case
  proof (cases "addressee_key t ad")
    case None
    with Suc.prems show ?thesis by simp
  next
    case (Some x)
    define here where "here = (case map_of td x of None \<Rightarrow> []
                               | Some data \<Rightarrow> [signal_call c a t k data])"
    have h: "\<forall>e \<in> set here. via e = c"
      by (auto simp: here_def signal_call_def split_def split: option.splits)
    show ?thesis
    proof (cases "map_of ch x")
      case None
      with Suc.prems Some h show ?thesis
        by (simp add: Let_def here_def[symmetric])
    next
      case inner: (Some cs)
      with Suc.prems Some have
        "e \<in> set (fst (fold (frozen_step (\<lambda>y. frozen_targets d c td ch a t (PyObj y) k)) cs (here, True)))"
        by (simp add: Let_def here_def[symmetric])
      with h show ?thesis by (rule fold)
    qed
  qed
qed

lemma via_frozen_then:
  "e \<in> set (fst (frozen_then p q)) \<Longrightarrow> e \<in> set (fst p) \<or> e \<in> set (fst q)"
  by (cases p; cases "snd p"; cases q) auto

lemma via_frozen_call_targets:
  "e \<in> set (fst (frozen_call_targets d c td ch a t k)) \<Longrightarrow> via e = c"
  by (auto simp: frozen_call_targets_def split: if_splits dest: via_frozen_targets)

lemma via_frozen_call_general:
  "e \<in> set (fst (frozen_call_general c sd a t k)) \<Longrightarrow> via e = c"
  by (auto simp: frozen_call_general_def split: if_splits dest: via_frozen_general)

lemma via_frozen_here:
  "e \<in> set (fst (frozen_here d c reg sd a t k)) \<Longrightarrow> via e = c"
  by (auto simp: frozen_here_def split: prod.splits if_splits option.splits
      dest!: via_frozen_then dest: via_frozen_call_general via_frozen_call_targets)

lemma via_frozen_invoke:
  "e \<in> set (fst (frozen_invoke d c reg sd a t k)) \<Longrightarrow> via e \<in> set (c # ancestors c)"
proof (induction c arbitrary: sd)
  case Signal
  then show ?case by (simp add: via_frozen_here)
next
  case (Sub n p)
  then show ?case
    by (auto dest!: via_frozen_then dest: via_frozen_here)
qed

lemma cache_on_class:
  "(\<And>s. cache (f s) = cache s) \<Longrightarrow> cache (classes (on_class c f w) x) = cache (classes w x)"
  by (simp add: on_class_def)

lemma cache_calls_update [simp]: "classes (w\<lparr>calls := cs\<rparr>) = classes w"
  by simp

lemma cache_fold:
  assumes "\<And>y w. cache (classes (f y w) x) = cache (classes w x)"
  shows "cache (classes (fold f ys w) x) = cache (classes w x)"
  using assms by (induction ys arbitrary: w) simp_all

lemma cache_set_parent: "cache (classes (set_parent c i p w) x) = cache (classes w x)"
  unfolding set_parent_def by (rule cache_on_class) simp

lemma cache_remove_parent: "cache (classes (remove_parent c i p w) x) = cache (classes w x)"
  unfolding remove_parent_def by (rule cache_on_class) simp

lemma cache_subscribe: "cache (classes (subscribe i cb w) x) = cache (classes w x)"
  unfolding subscribe_def
  by (rule cache_fold) (auto simp: split_def Let_def intro!: cache_on_class)

lemma cache_unsubscribe_from:
  "cache (classes (unsubscribe_from i c b w) x) = cache (classes w x)"
proof -
  have step: "cache (classes (on_class c (\<lambda>s. if b
                 then s\<lparr>to_unsubscribe_global := to_unsubscribe_global s @ [i]\<rparr>
                 else s\<lparr>to_unsubscribe_context := to_unsubscribe_context s @ [i]\<rparr>) w) x)
              = cache (classes w x)"
    by (rule cache_on_class) simp
  have f1: "cache (classes (fold (\<lambda>child. remove_parent c child i) cs w') x) = cache (classes w' x)"
    for cs w'
    by (rule cache_fold) (simp add: cache_remove_parent)
  have f2: "cache (classes (fold (\<lambda>(parent, next_children) w'.
                 if i \<in> set next_children then remove_parent c i parent w' else w') ch w') x)
            = cache (classes w' x)" for ch w'
    by (rule cache_fold) (simp add: split_def cache_remove_parent)
  show ?thesis
    unfolding unsubscribe_from_def Let_def
    by (simp add: f2 f1 step split: option.splits)
qed

lemma cache_unsubscribe: "cache (classes (unsubscribe i cb w) x) = cache (classes w x)"
  unfolding unsubscribe_def
  by (rule cache_fold) (simp add: split_def cache_unsubscribe_from)

lemma cache_run_op: "cache (classes (run_op op w) x) = cache (classes w x)"
  by (cases op)
     (simp_all add: cache_subscribe cache_unsubscribe cache_set_parent cache_remove_parent)

lemma cache_invoke_signal:
  "cache (classes (invoke_signal c a t k data w) x) = cache (classes w x)"
  unfolding invoke_signal_def by (simp add: split_def cache_fold cache_run_op)

lemma cache_invoke_general:
  "cache (classes (invoke_general c sd a t k w) x) = cache (classes w x)"
  unfolding invoke_general_def by (rule cache_fold) (simp add: split_def cache_invoke_signal)

lemma cache_fold_bind:
  assumes "\<And>y w. cache (classes (world_of (f y w)) x) = cache (classes w x)"
    and "cache (classes (world_of r) x) = L"
  shows "cache (classes (world_of (fold (\<lambda>y r. bind r (f y)) ys r)) x) = L"
  using assms(2)
proof (induction ys arbitrary: r)
  case Nil then show ?case by simp
next
  case (Cons y ys)
  have "cache (classes (world_of (bind r (f y))) x) = L"
    using Cons.prems assms(1) by (cases r) simp_all
  then show ?case by (simp add: Cons.IH)
qed

lemma cache_invoke_targets:
  "cache (classes (world_of (invoke_targets d c td a t ad k w)) x) = cache (classes w x)"
proof (induction d arbitrary: ad w t)
  case 0 show ?case by simp
next
  case (Suc d)
  have step: "cache (classes (world_of (fold (\<lambda>y r. bind r (invoke_targets d c td a t (PyObj y) k)) cs (Done w1))) x)
              = cache (classes w1 x)" for cs w1 t
    by (rule cache_fold_bind) (simp_all add: Suc)
  show ?case
    by (auto simp: Let_def cache_invoke_signal step split: option.splits)
qed

lemma frozen_then_True [simp]: "frozen_then (acc, True) q = (acc @ fst q, snd q)"
  by (cases q) simp

lemma world_of_bind:
  "world_of (bind r f) = (case r of Done w \<Rightarrow> world_of (f w) | Raise e w \<Rightarrow> w)"
  by (cases r) simp_all

lemma cache_call_invoke_targets:
  "cache (classes (world_of (call_invoke_targets d c td a t k w)) x) = cache (classes w x)"
  by (simp add: call_invoke_targets_def cache_invoke_targets)

lemma cache_call_invoke_general:
  "cache (classes (world_of (call_invoke_general c sd a t k w)) x) = cache (classes w x)"
  by (simp add: call_invoke_general_def cache_invoke_general)

lemma cache_dispatch_here:
  "cache (classes (world_of (dispatch_here d c sd a t k w)) x) =
     cache (classes w x) @ (if x = c \<and> is_cached c \<and> sd = None then [(a, t, k)] else [])"
proof -
  let ?w1 = "on_class c (\<lambda>s. s\<lparr>cache := cache s @ [(a, t, k)]\<rparr>) w"
  have w1: "cache (classes (on_class c (\<lambda>s. s\<lparr>cache := cache s @ [e]\<rparr>) w) y)
              = cache (classes w y) @ (if y = c then [e] else [])" for y e
    by (simp add: on_class_def)
  have tail: "cache (classes (world_of (bind r (\<lambda>w2. call_invoke_general c (subscribers (classes w2 c)) a t k w2))) x)
                = cache (classes (world_of r) x)" for r x a t
    by (cases r) (simp_all add: cache_call_invoke_general)
  show ?thesis
    unfolding dispatch_here_def Let_def
    by (auto simp: tail cache_call_invoke_targets cache_call_invoke_general w1
        split: option.splits)
qed

lemma cache_invoke_other:
  "x \<notin> set (c # ancestors c) \<Longrightarrow>
   cache (classes (world_of (invoke d c sd a t k w)) x) = cache (classes w x)"
proof (induction c arbitrary: sd w)
  case Signal
  then show ?case by (simp add: cache_dispatch_here)
next
  case (Sub n p)
  then have x: "x \<noteq> Sub n p" "x \<notin> set (p # ancestors p)" by auto
  show ?case
    using cache_dispatch_here[of d "Sub n p" sd a t k w x] x(1) Sub.IH[OF x(2)]
    by (cases "dispatch_here d (Sub n p) sd a t k w") (simp_all)
qed

lemma cache_invoke_self:
  assumes "is_cached c"
  shows "cache (classes (world_of (invoke d c None a t k w)) c) = cache (classes w c) @ [(a, t, k)]"
proof (cases c)
  case Signal
  with assms show ?thesis by simp
next
  case (Sub n p)
  have "c \<notin> set (p # ancestors p)"
    using not_own_ancestor[of c] Sub by simp
  then show ?thesis
    using cache_dispatch_here[of d c None a t k w c] assms
      cache_invoke_other[of c p d None a t k]
    unfolding Sub
    by (cases "dispatch_here d (Sub n p) None a t k w") simp_all
qed

lemma fold_frozen_ok:
  assumes "snd (fold (frozen_step g) xs (acc, True))"
  shows "fst (fold (frozen_step g) xs (acc, True)) = acc @ concat (map (\<lambda>x. fst (g x)) xs)"
  using assms
proof (induction xs arbitrary: acc)
  case Nil then show ?case by simp
next
  case (Cons x xs)
  have stuck: "\<not> snd (fold (frozen_step g) ys (b, False))" for ys b
    by (induction ys) simp_all
  show ?case
  proof (cases "snd (g x)")
    case True
    with Cons show ?thesis by simp
  next
    case False
    with Cons.prems stuck show ?thesis by simp
  qed
qed

lemma replay_lambda:
  "(\<lambda>(previous_args, target, previous_kwargs) r. bind r (F previous_args target previous_kwargs))
     = (\<lambda>x r. bind r (case x of (pa, t, pk) \<Rightarrow> F pa t pk))"
  by (auto simp: fun_eq_iff)

lemma agrees_on_subscribed:
  assumes "is_cached c"
  shows "agrees (on_subscribed d c False i data w) w
           (fold (frozen_step (\<lambda>(a, t, k).
                    frozen_invoke d c (live_registry w) (Some [(i, data)]) a t k))
                 (cache (classes w c)) ([], True))"
proof -
  have "agrees (fold (\<lambda>x r. bind r (case x of (pa, t, pk) \<Rightarrow> invoke d c (Some [(i, data)]) pa t pk))
                  (cache (classes w c)) (Done w)) w
          (fold (frozen_step (\<lambda>x. case x of (a, t, k) \<Rightarrow>
                    frozen_invoke d c (live_registry w) (Some [(i, data)]) a t k))
                 (cache (classes w c)) ([], True))"
  proof (rule agrees_fold[OF _ agrees_Done_self refl])
    fix x w' assume "live_registry w' = live_registry w"
    then show "agrees ((case x of (pa, t, pk) \<Rightarrow> invoke d c (Some [(i, data)]) pa t pk) w') w'
                 (case x of (a, t, k) \<Rightarrow> frozen_invoke d c (live_registry w) (Some [(i, data)]) a t k)"
      using agrees_invoke[of d c "Some [(i, data)]" _ _ _ w'] by (cases x) auto
  qed
  with assms show ?thesis
    by (simp add: on_subscribed_def replay_lambda)
qed

lemma frozen_replay_entry:
  assumes "is_cached c" and "snd (frozen_invoke d c reg (Some [(i, data)]) a t k)"
  shows "filter (\<lambda>e. via e = c) (fst (frozen_invoke d c reg (Some [(i, data)]) a t k))
           = [signal_call c a t k data]"
proof (cases c)
  case Signal
  with assms show ?thesis by simp
next
  case (Sub n p)
  have "snd (frozen_here d c (reg c) (Some [(i, data)]) a t k)"
    using assms(2) unfolding Sub
    by (cases "frozen_here d (Sub n p) (reg (Sub n p)) (Some [(i, data)]) a t k";
        cases "snd (frozen_here d (Sub n p) (reg (Sub n p)) (Some [(i, data)]) a t k)") auto
  then have here: "frozen_here d c (reg c) (Some [(i, data)]) a t k = ([signal_call c a t k data], True)"
    using assms(1)
    by (auto simp: frozen_here_def frozen_call_general_def frozen_general_def
        split: prod.splits if_splits)
  have "via e \<noteq> c" if "e \<in> set (fst (frozen_invoke d p reg None a t k))" for e
    using via_frozen_invoke[OF that] not_own_ancestor[of c] Sub by auto
  then have "filter (\<lambda>e. via e = c) (fst (frozen_invoke d p reg None a t k)) = []"
    by (auto simp: filter_empty_conv)
  then show ?thesis
    using here unfolding Sub
    by (simp add: signal_call_def split_def)
qed

lemma on_subscribed_calls:
  "\<exists>T. calls (world_of (on_subscribed d c b i data w)) = calls w @ T"
proof (cases "is_cached c \<and> \<not> b")
  case True
  then show ?thesis
    using agrees_on_subscribed[of c d i data w] by (auto simp: agrees_def)
next
  case False
  then show ?thesis by (auto simp: on_subscribed_def)
qed

lemma apply_subscribe_global_calls:
  "\<exists>T. calls (world_of (apply_subscribe_global d c w)) = calls w @ T"
proof -
  obtain i data where l: "last (to_subscribe_global (classes w c)) = (i, data)"
    by (cases "last (to_subscribe_global (classes w c))")
  let ?w0 = "on_class c (\<lambda>s. s\<lparr>to_subscribe_global := butlast (to_subscribe_global s),
                              subscribers := AList.update i data (subscribers s)\<rparr>) w"
  obtain T where "calls (world_of (on_subscribed d c False i data ?w0)) = calls ?w0 @ T"
    using on_subscribed_calls by blast
  then show ?thesis
    by (simp add: apply_subscribe_global_def l)
qed

lemma global_loop_calls:
  assumes "subscribe_global_loop d c w = Some r"
  shows "\<exists>T. calls (world_of r) = calls w @ T"
proof (rule subscribe_global_loop.raw_induct
    [where P = "\<lambda>d c w r. \<exists>T. calls (world_of r) = calls w @ T", OF _ assms])
  fix loop :: "nat \<Rightarrow> sigcls \<Rightarrow> world \<Rightarrow> outcome option" and d c w r
  assume IH: "\<And>d c w r. loop d c w = Some r \<Longrightarrow> \<exists>T. calls (world_of r) = calls w @ T"
    and body: "(if to_subscribe_global (classes w c) = [] then Some (Done w)
                else case apply_subscribe_global d c w of
                       Done w' \<Rightarrow> loop d c w'
                     | Raise e w' \<Rightarrow> Some (Raise e w')) = Some r"
  show "\<exists>T. calls (world_of r) = calls w @ T"
  proof (cases "to_subscribe_global (classes w c) = []")
    case True
    with body show ?thesis by auto
  next
    case False
    obtain T where T: "calls (world_of (apply_subscribe_global d c w)) = calls w @ T"
      using apply_subscribe_global_calls by blast
    show ?thesis
    proof (cases "apply_subscribe_global d c w")
      case (Done w1)
      with body False have l: "loop d c w1 = Some r" by simp
      obtain T' where "calls (world_of r) = calls w1 @ T'"
        using IH[OF l] by blast
      moreover have "calls w1 = calls w @ T"
        using T Done by simp
      ultimately show ?thesis by simp
    next
      case (Raise e w1)
      with body False have "r = Raise e w1" by simp
      with T Raise show ?thesis by simp
    qed
  qed
qed

lemma apply_subscribe_context_Done:
  "apply_subscribe_context d c w =
     Done (on_class c (\<lambda>s. s\<lparr>to_subscribe_context := butlast (to_subscribe_context s),
             isolated_subscribers :=
               AList.update (fst (last (to_subscribe_context (classes w c))))
                 (snd (last (to_subscribe_context (classes w c)))) (isolated_subscribers s)\<rparr>) w)"
  by (simp add: apply_subscribe_context_def on_subscribed_def split_def)

lemma context_loop_calls:
  assumes "subscribe_context_loop d c w = Some r"
  shows "calls (world_of r) = calls w"
proof (rule subscribe_context_loop.raw_induct
    [where P = "\<lambda>d c w r. calls (world_of r) = calls w", OF _ assms])
  fix loop :: "nat \<Rightarrow> sigcls \<Rightarrow> world \<Rightarrow> outcome option" and d c w r
  assume IH: "\<And>d c w r. loop d c w = Some r \<Longrightarrow> calls (world_of r) = calls w"
    and body: "(if to_subscribe_context (classes w c) = [] then Some (Done w)
                else case apply_subscribe_context d c w of
                       Done w' \<Rightarrow> loop d c w'
                     | Raise e w' \<Rightarrow> Some (Raise e w')) = Some r"
  show "calls (world_of r) = calls w"
  proof (cases "to_subscribe_context (classes w c) = []")
    case True
    with body show ?thesis by auto
  next
    case False
    obtain w1 where w1: "apply_subscribe_context d c w = Done w1" "calls w1 = calls w"
      by (simp add: apply_subscribe_context_Done)
    with body False have l: "loop d c w1 = Some r" by simp
    show ?thesis
      using IH[OF l] w1(2) by simp
  qed
qed

lemma finish_update_calls: "calls (world_of (finish_update c w)) = calls w"
  by (simp add: finish_update_def Let_def split: prod.splits option.splits)

lemma update_state_Done:
  assumes "update_state d c w = Some (Done w')"
  obtains w1 w2 where "subscribe_global_loop d c w = Some (Done w1)"
    and "subscribe_context_loop d c w1 = Some (Done w2)" and "finish_update c w2 = Done w'"
  using assms unfolding update_state_def
  by (auto split: option.splits outcome.splits)

subsection \<open>Callbacks that stage no global subscriber\<close>

lemma pending_on_class:
  "(\<And>s. to_subscribe_global (f s) = to_subscribe_global s) \<Longrightarrow> to_subscribe_global (classes (on_class c f w) x) = to_subscribe_global (classes w x)"
  by (simp add: on_class_def)

lemma pending_fold:
  assumes "\<And>y w. to_subscribe_global (classes (f y w) x) = to_subscribe_global (classes w x)"
  shows "to_subscribe_global (classes (fold f ys w) x) = to_subscribe_global (classes w x)"
  using assms by (induction ys arbitrary: w) simp_all

lemma pending_set_parent: "to_subscribe_global (classes (set_parent c i p w) x) = to_subscribe_global (classes w x)"
  unfolding set_parent_def by (rule pending_on_class) simp

lemma pending_remove_parent: "to_subscribe_global (classes (remove_parent c i p w) x) = to_subscribe_global (classes w x)"
  unfolding remove_parent_def by (rule pending_on_class) simp

lemma pending_unsubscribe_from:
  "to_subscribe_global (classes (unsubscribe_from i c b w) x) = to_subscribe_global (classes w x)"
proof -
  have step: "to_subscribe_global (classes (on_class c (\<lambda>s. if b
                 then s\<lparr>to_unsubscribe_global := to_unsubscribe_global s @ [i]\<rparr>
                 else s\<lparr>to_unsubscribe_context := to_unsubscribe_context s @ [i]\<rparr>) w) x)
              = to_subscribe_global (classes w x)"
    by (rule pending_on_class) simp
  have f1: "to_subscribe_global (classes (fold (\<lambda>child. remove_parent c child i) cs w') x) = to_subscribe_global (classes w' x)"
    for cs w'
    by (rule pending_fold) (simp add: pending_remove_parent)
  have f2: "to_subscribe_global (classes (fold (\<lambda>(parent, next_children) w'.
                 if i \<in> set next_children then remove_parent c i parent w' else w') ch w') x)
            = to_subscribe_global (classes w' x)" for ch w'
    by (rule pending_fold) (simp add: split_def pending_remove_parent)
  show ?thesis
    unfolding unsubscribe_from_def Let_def
    by (simp add: f2 f1 step split: option.splits)
qed

lemma pending_unsubscribe: "to_subscribe_global (classes (unsubscribe i cb w) x) = to_subscribe_global (classes w x)"
  unfolding unsubscribe_def
  by (rule pending_fold) (simp add: split_def pending_unsubscribe_from)

lemma pending_fold_bind:
  assumes "\<And>y w. to_subscribe_global (classes (world_of (f y w)) x) = to_subscribe_global (classes w x)"
    and "to_subscribe_global (classes (world_of r) x) = L"
  shows "to_subscribe_global (classes (world_of (fold (\<lambda>y r. bind r (f y)) ys r)) x) = L"
  using assms(2)
proof (induction ys arbitrary: r)
  case Nil then show ?case by simp
next
  case (Cons y ys)
  have "to_subscribe_global (classes (world_of (bind r (f y))) x) = L"
    using Cons.prems assms(1) by (cases r) simp_all
  then show ?case by (simp add: Cons.IH)
qed

lemma keep_fold:
  assumes "\<And>y w. y \<in> set ys \<Longrightarrow> F (f y w) = F w"
  shows "F (fold f ys w) = F w"
  using assms
proof (induction ys arbitrary: w)
  case Nil
  show ?case by simp
next
  case (Cons y ys)
  have "F (fold f ys (f y w)) = F (f y w)"
    by (rule Cons.IH) (simp add: Cons.prems)
  then show ?case by (simp add: Cons.prems)
qed

lemma pending_subscribe:
  assumes "(x, False) \<notin> set (signals cb)"
  shows "to_subscribe_global (classes (subscribe i cb w) x) = to_subscribe_global (classes w x)"
  unfolding subscribe_def
proof (rule keep_fold[where F = "\<lambda>w. to_subscribe_global (classes w x)"])
  fix y w assume y: "y \<in> set (signals cb)"
  obtain sc ctx where eq: "y = (sc, ctx)" by (cases y)
  with y assms have "sc = x \<longrightarrow> ctx" by (cases ctx) auto
  then show "to_subscribe_global (classes ((case y of (signal_cls, is_context) \<Rightarrow>
               on_class signal_cls (\<lambda>s.
                 let data = (cb, accepts_signal cb, accepts_target cb)
                 in if is_context
                    then s\<lparr>to_subscribe_context := AList.update i data (to_subscribe_context s)\<rparr>
                    else s\<lparr>to_subscribe_global := AList.update i data (to_subscribe_global s)\<rparr>)) w) x)
             = to_subscribe_global (classes w x)"
    unfolding eq by (auto simp: on_class_def Let_def)
qed

lemma pending_run_op:
  "\<not> stages_global x op \<Longrightarrow>
   to_subscribe_global (classes (run_op op w) x) = to_subscribe_global (classes w x)"
  by (cases op)
     (simp_all add: pending_subscribe pending_unsubscribe pending_set_parent pending_remove_parent)

lemma pending_invoke_signal:
  assumes "\<not> list_ex (stages_global x) (body (fst data))"
  shows "to_subscribe_global (classes (invoke_signal c a t k data w) x)
           = to_subscribe_global (classes w x)"
proof -
  obtain cb s1 s2 where data: "data = (cb, s1, s2)" by (cases data)
  have "to_subscribe_global (classes (fold run_op (body cb) w0) x)
          = to_subscribe_global (classes w0 x)" for w0
  proof (rule keep_fold[where F = "\<lambda>w. to_subscribe_global (classes w x)"])
    fix op w assume "op \<in> set (body cb)"
    with assms data have "\<not> stages_global x op" by (auto simp: list_ex_iff)
    then show "to_subscribe_global (classes (run_op op w) x) = to_subscribe_global (classes w x)"
      by (rule pending_run_op)
  qed
  then show ?thesis by (simp add: invoke_signal_def data)
qed

lemma quiet_entry:
  "quiet x sd \<Longrightarrow> (i, data) \<in> set sd \<Longrightarrow> \<not> list_ex (stages_global x) (body (fst data))"
  by (auto simp: quiet_def list_all_iff)

lemma pending_invoke_general:
  assumes "quiet x sd"
  shows "to_subscribe_global (classes (invoke_general c sd a t k w) x)
           = to_subscribe_global (classes w x)"
  unfolding invoke_general_def
proof (rule keep_fold[where F = "\<lambda>w. to_subscribe_global (classes w x)"])
  fix y w assume y: "y \<in> set sd"
  obtain i data where eq: "y = (i, data)" by (cases y)
  from quiet_entry[OF assms] y eq
  have "\<not> list_ex (stages_global x) (body (fst data))" by simp
  then show "to_subscribe_global (classes ((case y of (identifier, data) \<Rightarrow>
               invoke_signal c a t k data) w) x) = to_subscribe_global (classes w x)"
    unfolding eq by (simp add: pending_invoke_signal)
qed

lemma pending_invoke_targets:
  assumes "quiet x td"
  shows "to_subscribe_global (classes (world_of (invoke_targets d c td a t ad k w)) x)
           = to_subscribe_global (classes w x)"
proof (induction d arbitrary: ad w t)
  case 0 show ?case by simp
next
  case (Suc d)
  have step: "to_subscribe_global (classes (world_of
                (fold (\<lambda>y r. bind r (invoke_targets d c td a t (PyObj y) k)) cs (Done w1))) x)
              = to_subscribe_global (classes w1 x)" for cs w1 t
    by (rule pending_fold_bind) (simp_all add: Suc)
  have hit: "to_subscribe_global (classes (invoke_signal c a t k data w) x)
               = to_subscribe_global (classes w x)"
    if "map_of td key = Some data" for key data t
    using quiet_entry[OF assms map_of_SomeD[OF that]] by (rule pending_invoke_signal)
  show ?case
    by (auto simp: Let_def hit step split: option.splits)
qed

lemma pending_call_invoke_targets:
  "quiet x td \<Longrightarrow>
   to_subscribe_global (classes (world_of (call_invoke_targets d c td a t k w)) x)
     = to_subscribe_global (classes w x)"
  by (simp add: call_invoke_targets_def pending_invoke_targets)

lemma pending_call_invoke_general:
  "quiet x sd \<Longrightarrow>
   to_subscribe_global (classes (world_of (call_invoke_general c sd a t k w)) x)
     = to_subscribe_global (classes w x)"
  by (simp add: call_invoke_general_def pending_invoke_general)

lemma pending_dispatch_here:
  assumes subs: "quiet x (subscribers (classes w c))"
    and isolated: "quiet x (isolated_subscribers (classes w c))"
  shows "to_subscribe_global (classes (world_of (dispatch_here d c None a t k w)) x)
           = to_subscribe_global (classes w x)"
proof -
  let ?P = "\<lambda>w. to_subscribe_global (classes w x)"
  have general: "?P (world_of (bind r (\<lambda>w2. call_invoke_general c (subscribers (classes w2 c)) a t k w2)))
                   = ?P w0"
    if "?P (world_of r) = ?P w0" and "live_registry (world_of r) = live_registry w" for r w0
  proof (cases r)
    case (Done w2)
    with that(2) have "subscribers (classes w2 c) = subscribers (classes w c)"
      using live_parts[of w2 w c] by simp
    with subs have "quiet x (subscribers (classes w2 c))" by simp
    from pending_call_invoke_general[OF this] that(1) Done show ?thesis by simp
  next
    case (Raise e w2)
    with that(1) show ?thesis by simp
  qed
  let ?w1 = "on_class c (\<lambda>s. s\<lparr>cache := cache s @ [(a, t, k)]\<rparr>) w"
  have l1: "live_registry ?w1 = live_registry w" by (rule live_cache_append)
  have p1: "?P ?w1 = ?P w" by (simp add: on_class_def)
  have i1: "quiet x (isolated_subscribers (classes ?w1 c))"
    using isolated live_parts[OF l1, of c] by simp
  show ?thesis
  proof (cases "is_cached c")
    case True
    have "?P (world_of (call_invoke_targets d c (isolated_subscribers (classes ?w1 c)) a t k ?w1)) = ?P w"
      using pending_call_invoke_targets[OF i1] p1 by simp
    moreover have "live_registry (world_of (call_invoke_targets d c
                      (isolated_subscribers (classes ?w1 c)) a t k ?w1)) = live_registry w"
      using live_call_invoke_targets l1 by simp
    ultimately show ?thesis
      using True by (simp add: dispatch_here_def Let_def general)
  next
    case False
    show ?thesis
    proof (cases "truthy t")
      case True
      have "?P (world_of (call_invoke_targets d c (isolated_subscribers (classes w c)) a t k w)) = ?P w"
        by (rule pending_call_invoke_targets[OF isolated])
      moreover have "live_registry (world_of (call_invoke_targets d c
                        (isolated_subscribers (classes w c)) a t k w)) = live_registry w"
        by (rule live_call_invoke_targets)
      ultimately show ?thesis
        using True False by (simp add: dispatch_here_def general)
    next
      case no: False
      have "?P (world_of (Done w)) = ?P w" "live_registry (world_of (Done w)) = live_registry w"
        by simp_all
      from general[OF this] no False show ?thesis
        by (simp add: dispatch_here_def)
    qed
  qed
qed

lemma pending_invoke:
  assumes "\<forall>y \<in> set (c # ancestors c).
             quiet x (subscribers (classes w y)) \<and> quiet x (isolated_subscribers (classes w y))"
  shows "to_subscribe_global (classes (world_of (invoke d c None a t k w)) x)
           = to_subscribe_global (classes w x)"
  using assms
proof (induction c arbitrary: w)
  case Signal
  then show ?case by (simp add: pending_dispatch_here)
next
  case (Sub n p)
  have here: "to_subscribe_global (classes (world_of (dispatch_here d (Sub n p) None a t k w)) x)
                = to_subscribe_global (classes w x)"
    using Sub.prems by (intro pending_dispatch_here) simp_all
  show ?case
  proof (cases "dispatch_here d (Sub n p) None a t k w")
    case (Done w1)
    have "live_registry w1 = live_registry w"
      using live_dispatch_here[of d "Sub n p" None a t k w] Done by simp
    then have "\<forall>y \<in> set (p # ancestors p).
             quiet x (subscribers (classes w1 y)) \<and> quiet x (isolated_subscribers (classes w1 y))"
      using Sub.prems live_parts[of w1 w] by simp
    from Sub.IH[OF this] here Done show ?thesis by simp
  next
    case (Raise e w1)
    with here show ?thesis by simp
  qed
qed

lemma cached_not_root: "is_cached c \<Longrightarrow> \<exists>n p. c = Sub n p"
  by (cases c) simp_all

lemma pending_replay_entry:
  assumes "is_cached c" and "quiet x info"
    and "\<forall>y \<in> set (ancestors c).
           quiet x (subscribers (classes w y)) \<and> quiet x (isolated_subscribers (classes w y))"
  shows "to_subscribe_global (classes (world_of (invoke d c (Some info) a t k w)) x)
           = to_subscribe_global (classes w x)"
proof -
  obtain n p where c: "c = Sub n p" using cached_not_root[OF assms(1)] by blast
  have here: "dispatch_here d c (Some info) a t k w = call_invoke_general c info a t k w"
    using assms(1) by (simp add: dispatch_here_def)
  show ?thesis
  proof (cases "call_invoke_general c info a t k w")
    case (Done w1)
    have p1: "to_subscribe_global (classes w1 x) = to_subscribe_global (classes w x)"
      using pending_call_invoke_general[OF assms(2), of c a t k w] Done by simp
    have "live_registry w1 = live_registry w"
      using live_call_invoke_general[of c info a t k w] Done by simp
    then have "\<forall>y \<in> set (p # ancestors p).
             quiet x (subscribers (classes w1 y)) \<and> quiet x (isolated_subscribers (classes w1 y))"
      using assms(3) live_parts[of w1 w] c by simp
    from pending_invoke[OF this] p1 Done here c show ?thesis by simp
  next
    case (Raise e w1)
    with pending_call_invoke_general[OF assms(2), of c a t k w] here c show ?thesis by simp
  qed
qed

lemma cache_replay_entry:
  assumes "is_cached c"
  shows "cache (classes (world_of (invoke d c (Some info) a t k w)) c) = cache (classes w c)"
proof -
  obtain n p where c: "c = Sub n p" using cached_not_root[OF assms] by blast
  have "c \<notin> set (p # ancestors p)"
    using not_own_ancestor[of c] c by simp
  then show ?thesis
    using cache_dispatch_here[of d c "Some info" a t k w c]
      cache_invoke_other[of c p d None a t k]
    unfolding c
    by (cases "dispatch_here d (Sub n p) (Some info) a t k w") simp_all
qed

subsection \<open>The calls of a replay\<close>

lemma frozen_invoke_cong:
  "\<forall>x \<in> set (c # ancestors c). r1 x = r2 x \<Longrightarrow>
   frozen_invoke d c r1 sd a t k = frozen_invoke d c r2 sd a t k"
  by (induction c arbitrary: sd) simp_all

lemma frozen_here_replay:
  "is_cached c \<Longrightarrow> frozen_here d c reg (Some info) a t k = frozen_call_general c info a t k"
  by (simp add: frozen_here_def split: prod.splits)

lemma frozen_replay_cong:
  assumes "is_cached c" and "\<forall>x \<in> set (ancestors c). r1 x = r2 x"
  shows "frozen_invoke d c r1 (Some info) a t k = frozen_invoke d c r2 (Some info) a t k"
proof -
  obtain n p where c: "c = Sub n p" using cached_not_root[OF assms(1)] by blast
  from assms(2) c have "frozen_invoke d p r1 None a t k = frozen_invoke d p r2 None a t k"
    by (intro frozen_invoke_cong) simp
  then show ?thesis
    using assms(1) unfolding c by (simp add: frozen_here_replay)
qed

lemma frozen_replay_flag:
  assumes "is_cached c"
  shows "snd (frozen_invoke d c reg (Some info) a t k) = snd (frozen_invoke d c reg (Some []) a t k)"
proof -
  obtain n p where c: "c = Sub n p" using cached_not_root[OF assms] by blast
  show ?thesis
    using assms unfolding c
    by (simp add: frozen_here_replay frozen_call_general_def)
qed

lemma fold_frozen_all:
  assumes "\<forall>x \<in> set xs. snd (g x)"
  shows "fold (frozen_step g) xs (acc, True) = (acc @ concat (map (\<lambda>x. fst (g x)) xs), True)"
  using assms by (induction xs arbitrary: acc) simp_all

lemma live_other_class:
  "x \<noteq> c \<Longrightarrow> live_registry (on_class c f w) x = live_registry w x"
  by (simp add: live_registry_def on_class_def)

lemma context_loop_returns:
  "\<exists>w'. subscribe_context_loop d c w = Some (Done w') \<and> calls w' = calls w"
proof (induction "length (to_subscribe_context (classes w c))" arbitrary: w)
  case 0
  then show ?case by (simp add: subscribe_context_loop_empty)
next
  case (Suc n)
  let ?w1 = "on_class c (\<lambda>s. s\<lparr>to_subscribe_context := butlast (to_subscribe_context s),
             isolated_subscribers :=
               AList.update (fst (last (to_subscribe_context (classes w c))))
                 (snd (last (to_subscribe_context (classes w c)))) (isolated_subscribers s)\<rparr>) w"
  have step: "apply_subscribe_context d c w = Done ?w1"
    by (rule apply_subscribe_context_Done)
  have "n = length (to_subscribe_context (classes ?w1 c))"
    using Suc.hyps(2) by (simp add: on_class_def)
  from Suc.hyps(1)[OF this]
  obtain w' where w': "subscribe_context_loop d c ?w1 = Some (Done w')" "calls w' = calls ?w1"
    by blast
  from Suc.hyps(2) have "to_subscribe_context (classes w c) \<noteq> []" by auto
  then have "subscribe_context_loop d c w = subscribe_context_loop d c ?w1"
    by (subst subscribe_context_loop.simps) (simp add: step)
  with w' show ?case by simp
qed

lemma replay_calls_snoc:
  "replay_calls d c reg (staged @ [(i, data)]) es =
     concat (map (\<lambda>(a, t, k). fst (frozen_invoke d c reg (Some [(i, data)]) a t k)) es)
     @ replay_calls d c reg staged es"
  by (simp add: replay_calls_def)

lemma global_loop_replay:
  assumes cached: "is_cached c"
    and quiet_reg: "\<forall>x \<in> set (ancestors c). quiet c (fst (reg x)) \<and> quiet c (fst (snd (reg x)))"
    and rets: "\<forall>(a, t, k) \<in> set es. snd (frozen_invoke d c reg (Some []) a t k)"
  shows "\<forall>x \<in> set (ancestors c). live_registry w x = reg x \<Longrightarrow>
         cache (classes w c) = es \<Longrightarrow>
         to_subscribe_global (classes w c) = staged \<Longrightarrow> quiet c staged \<Longrightarrow>
         \<exists>w'. subscribe_global_loop d c w = Some (Done w') \<and>
              calls w' = calls w @ replay_calls d c reg staged es"
proof (induction staged arbitrary: w rule: rev_induct)
  case Nil
  then show ?case
    by (simp add: subscribe_global_loop_empty replay_calls_def)
next
  case (snoc entry staged)
  obtain i data where entry: "entry = (i, data)" by (cases entry)
  let ?info = "[(i, data)]"
  let ?w0 = "on_class c (\<lambda>s. s\<lparr>to_subscribe_global := butlast (to_subscribe_global s),
                              subscribers := AList.update i data (subscribers s)\<rparr>) w"
  let ?g = "\<lambda>(a, t, k). frozen_invoke d c reg (Some ?info) a t k"
  have step: "apply_subscribe_global d c w = on_subscribed d c False i data ?w0"
    using snoc.prems(3) entry by (simp add: apply_subscribe_global_def)
  have reg0: "\<forall>x \<in> set (ancestors c). live_registry ?w0 x = reg x"
  proof
    fix x assume x: "x \<in> set (ancestors c)"
    then have "x \<noteq> c" using not_own_ancestor[of c] by auto
    then show "live_registry ?w0 x = reg x"
      using snoc.prems(1) x by (simp add: live_other_class)
  qed
  have c0: "cache (classes ?w0 c) = es" "calls ?w0 = calls w"
    "to_subscribe_global (classes ?w0 c) = staged"
    using snoc.prems(2,3) by (simp_all add: on_class_def)
  have same: "(\<lambda>(a, t, k). frozen_invoke d c (live_registry ?w0) (Some ?info) a t k) = ?g"
    using frozen_replay_cong[OF cached reg0] by (auto simp: fun_eq_iff)
  have flags: "\<forall>e \<in> set es. snd (?g e)"
    using rets frozen_replay_flag[OF cached, of d reg ?info] by auto
  have plan: "fold (frozen_step ?g) es ([], True) = (concat (map (\<lambda>e. fst (?g e)) es), True)"
    using fold_frozen_all[OF flags, of "[]"] by simp
  from agrees_on_subscribed[OF cached, of d i data ?w0]
  have ag: "agrees (on_subscribed d c False i data ?w0) ?w0 (concat (map (\<lambda>e. fst (?g e)) es), True)"
    unfolding c0 same plan .
  then obtain w1 where w1: "on_subscribed d c False i data ?w0 = Done w1"
    by (cases "on_subscribed d c False i data ?w0") (auto simp: agrees_def)
  with ag have calls1: "calls w1 = calls w @ concat (map (\<lambda>e. fst (?g e)) es)"
    and live1: "live_registry w1 = live_registry ?w0"
    by (simp_all add: agrees_def c0)
  have reg1: "\<forall>x \<in> set (ancestors c). live_registry w1 x = reg x"
    using reg0 live1 by simp
  have qe: "quiet c ?info" and qs: "quiet c staged"
    using snoc.prems(4) entry by (simp_all add: quiet_def)
  have inv: "to_subscribe_global (classes (world_of r) c) = staged \<and>
             cache (classes (world_of r) c) = es \<and>
             (\<forall>x \<in> set (ancestors c). live_registry (world_of r) x = reg x)"
    if "r = fold (\<lambda>(pa, t, pk) r. bind r (invoke d c (Some ?info) pa t pk)) xs (Done ?w0)"
    for xs r
    using that
  proof (induction xs arbitrary: r rule: rev_induct)
    case Nil
    then show ?case using c0 reg0 by simp
  next
    case (snoc e xs)
    obtain pa t pk where e: "e = (pa, t, pk)" by (cases e)
    let ?r0 = "fold (\<lambda>(pa, t, pk) r. bind r (invoke d c (Some ?info) pa t pk)) xs (Done ?w0)"
    note IH = snoc.IH[OF refl]
    have r: "r = bind ?r0 (invoke d c (Some ?info) pa t pk)"
      using snoc.prems e by simp
    show ?case
    proof (cases ?r0)
      case (Raise err w2)
      with r IH show ?thesis by simp
    next
      case (Done w2)
      with IH have p2: "to_subscribe_global (classes w2 c) = staged"
        and c2: "cache (classes w2 c) = es"
        and l2: "\<forall>x \<in> set (ancestors c). live_registry w2 x = reg x" by simp_all
      have quiet2: "\<forall>y \<in> set (ancestors c).
             quiet c (subscribers (classes w2 y)) \<and> quiet c (isolated_subscribers (classes w2 y))"
      proof
        fix y assume y: "y \<in> set (ancestors c)"
        with l2 have "reg y = (subscribers (classes w2 y), isolated_subscribers (classes w2 y),
                               children (classes w2 y))"
          by (simp add: live_registry_def)
        with quiet_reg y show "quiet c (subscribers (classes w2 y)) \<and>
                               quiet c (isolated_subscribers (classes w2 y))"
          by auto
      qed
      have "to_subscribe_global (classes (world_of (invoke d c (Some ?info) pa t pk w2)) c) = staged"
        using pending_replay_entry[OF cached qe quiet2] p2 by simp
      moreover have "cache (classes (world_of (invoke d c (Some ?info) pa t pk w2)) c) = es"
        using cache_replay_entry[OF cached] c2 by simp
      moreover have "\<forall>x \<in> set (ancestors c).
                       live_registry (world_of (invoke d c (Some ?info) pa t pk w2)) x = reg x"
        using live_invoke[of d c "Some ?info" pa t pk w2] l2 by simp
      ultimately show ?thesis using r Done by simp
    qed
  qed
  have "on_subscribed d c False i data ?w0
          = fold (\<lambda>(pa, t, pk) r. bind r (invoke d c (Some ?info) pa t pk)) es (Done ?w0)"
    using cached c0 by (simp add: on_subscribed_def)
  from inv[OF this] w1
  have p1: "to_subscribe_global (classes w1 c) = staged" and e1: "cache (classes w1 c) = es"
    by simp_all
  from snoc.IH[OF reg1 e1 p1 qs]
  obtain w' where w': "subscribe_global_loop d c w1 = Some (Done w')"
    "calls w' = calls w1 @ replay_calls d c reg staged es" by blast
  have "subscribe_global_loop d c w = subscribe_global_loop d c w1"
    using snoc.prems(3) step w1 by (subst subscribe_global_loop.simps) simp
  with w' calls1 show ?case
    by (simp add: entry replay_calls_snoc split_def)
qed

lemma replay_calls_via:
  assumes cached: "is_cached c"
    and rets: "\<forall>(a, t, k) \<in> set es. snd (frozen_invoke d c reg (Some []) a t k)"
  shows "filter (\<lambda>e. via e = c) (replay_calls d c reg staged es)
           = concat (map (\<lambda>(i, data). map (\<lambda>(a, t, k). signal_call c a t k data) es) (rev staged))"
proof -
  have one: "filter (\<lambda>e. via e = c)
               (concat (map (\<lambda>(a, t, k). fst (frozen_invoke d c reg (Some [(i, data)]) a t k)) xs))
             = map (\<lambda>(a, t, k). signal_call c a t k data) xs"
    if "set xs \<subseteq> set es" for i data xs
    using that
  proof (induction xs)
    case Nil
    show ?case by simp
  next
    case (Cons x xs)
    obtain a t k where x: "x = (a, t, k)" by (cases x)
    with Cons.prems rets have "snd (frozen_invoke d c reg (Some []) a t k)" by auto
    then have "snd (frozen_invoke d c reg (Some [(i, data)]) a t k)"
      using frozen_replay_flag[OF cached, of d reg "[(i, data)]" a t k] by simp
    from frozen_replay_entry[OF cached this] Cons show ?case by (simp add: x)
  qed
  have "filter (\<lambda>e. via e = c)
          (concat (map (\<lambda>(i, data). concat (map (\<lambda>(a, t, k).
                     fst (frozen_invoke d c reg (Some [(i, data)]) a t k)) es)) ys))
        = concat (map (\<lambda>(i, data). map (\<lambda>(a, t, k). signal_call c a t k data) es) ys)" for ys
    by (induction ys) (auto simp: one)
  then show ?thesis by (simp add: replay_calls_def)
qed

text \<open>
  What \<^verbatim>\<open>update_state\<close> replays. On a class that resolves \<^verbatim>\<open>invoke\<close> to that of
  \<^verbatim>\<open>CachedSignal\<close>: a fresh \<^verbatim>\<open>invoke\<close>, one without \<^verbatim>\<open>subscriber_data\<close>, leaves the cache
  with \<open>(args, target, kwargs)\<close> appended, also when the dispatch that follows raises.
  Let no callback that the replay can call stage a global subscriber of the class, and
  let the replay of every cached invocation return. Then \<^verbatim>\<open>update_state\<close> does not run
  forever, and the calls made when it ends are, for every staged global subscriber in
  the order in which \<^verbatim>\<open>popitem\<close> takes them and for every entry of the cache in the
  order of the cache, the call of the subscriber's callback with that entry followed
  by the calls of the ancestors. So the class itself calls every new global subscriber
  with the whole cache, in order, when \<^verbatim>\<open>update_state\<close> applies the subscriber, and
  calls nothing else: no staged contextual subscriber is called. When no global
  subscriber is staged, \<^verbatim>\<open>update_state\<close> ends without a single call, whatever contextual
  subscribers are staged.
\<close>

lemma update_state_replays_cache:
  assumes "is_cached c"
  shows "cache (classes (world_of (invoke d c None args target kwargs w)) c)
           = cache (classes w c) @ [(args, target, kwargs)] \<and>
         (replay_quiet c w \<and> replay_returns d c w \<longrightarrow>
            (\<exists>r. update_state d c w = Some r \<and>
                 calls (world_of r) =
                   calls w @ replay_calls d c (live_registry w)
                               (to_subscribe_global (classes w c)) (cache (classes w c)) \<and>
                 filter (\<lambda>e. via e = c) (drop (length (calls w)) (calls (world_of r))) =
                   concat (map (\<lambda>(identifier, data).
                             map (\<lambda>(a, t, k). signal_call c a t k data) (cache (classes w c)))
                          (rev (to_subscribe_global (classes w c)))))) \<and>
         (to_subscribe_global (classes w c) = [] \<longrightarrow>
            (\<exists>r. update_state d c w = Some r \<and> calls (world_of r) = calls w))"
proof (intro conjI impI)
  show "cache (classes (world_of (invoke d c None args target kwargs w)) c)
           = cache (classes w c) @ [(args, target, kwargs)]"
    by (rule cache_invoke_self[OF assms])
next
  assume a: "replay_quiet c w \<and> replay_returns d c w"
  let ?reg = "live_registry w"
  let ?es = "cache (classes w c)"
  let ?staged = "to_subscribe_global (classes w c)"
  have quiet_reg: "\<forall>x \<in> set (ancestors c). quiet c (fst (?reg x)) \<and> quiet c (fst (snd (?reg x)))"
    using a by (simp add: replay_quiet_def list_all_iff live_registry_def)
  have rets: "\<forall>(a, t, k) \<in> set ?es. snd (frozen_invoke d c ?reg (Some []) a t k)"
    using a by (simp add: replay_returns_def list_all_iff)
  have qs: "quiet c ?staged"
    using a by (simp add: replay_quiet_def)
  from global_loop_replay[OF assms quiet_reg rets _ refl refl qs]
  obtain w1 where w1: "subscribe_global_loop d c w = Some (Done w1)"
    "calls w1 = calls w @ replay_calls d c ?reg ?staged ?es"
    by blast
  obtain w2 where w2: "subscribe_context_loop d c w1 = Some (Done w2)" "calls w2 = calls w1"
    using context_loop_returns by blast
  have "update_state d c w = Some (finish_update c w2)"
    using w1 w2 by (simp add: update_state_def)
  moreover have "calls (world_of (finish_update c w2)) = calls w @ replay_calls d c ?reg ?staged ?es"
    using w1 w2 by (simp add: finish_update_calls)
  ultimately show "\<exists>r. update_state d c w = Some r \<and>
                 calls (world_of r) = calls w @ replay_calls d c ?reg ?staged ?es \<and>
                 filter (\<lambda>e. via e = c) (drop (length (calls w)) (calls (world_of r))) =
                   concat (map (\<lambda>(identifier, data).
                             map (\<lambda>(a, t, k). signal_call c a t k data) ?es)
                          (rev ?staged))"
    using replay_calls_via[OF assms rets, of ?staged] by simp
next
  assume a: "to_subscribe_global (classes w c) = []"
  then have g: "subscribe_global_loop d c w = Some (Done w)"
    by (simp add: subscribe_global_loop_empty)
  obtain w2 where w2: "subscribe_context_loop d c w = Some (Done w2)" "calls w2 = calls w"
    using context_loop_returns by blast
  have "update_state d c w = Some (finish_update c w2)"
    using g w2 by (simp add: update_state_def)
  moreover have "calls (world_of (finish_update c w2)) = calls w"
    using w2 by (simp add: finish_update_calls)
  ultimately show "\<exists>r. update_state d c w = Some r \<and> calls (world_of r) = calls w"
    by simp
qed

subsection \<open>The replay reaches the ancestors\<close>

lemma frozen_then_ok: "snd (frozen_then p q) \<Longrightarrow> snd p \<and> snd q \<and> fst (frozen_then p q) = fst p @ fst q"
  by (cases p; cases "snd p"; cases q) auto

lemma frozen_invoke_ok_here:
  "snd (frozen_invoke d c reg sd a t k) \<Longrightarrow> snd (frozen_here d c (reg c) sd a t k)"
  by (cases c) (auto dest: frozen_then_ok)

lemma filter_via_other:
  assumes "\<And>e. e \<in> set xs \<Longrightarrow> via e \<noteq> x"
  shows "filter (\<lambda>e. via e = x) xs = []"
  using assms by (auto simp: filter_empty_conv)

lemma filter_via_same:
  assumes "\<And>e. e \<in> set xs \<Longrightarrow> via e = x"
  shows "filter (\<lambda>e. via e = x) xs = xs"
  using assms by (auto simp: filter_id_conv)

lemma frozen_invoke_via_self:
  assumes "snd (frozen_invoke d c reg sd a t k)"
  shows "filter (\<lambda>e. via e = c) (fst (frozen_invoke d c reg sd a t k))
           = fst (frozen_here d c (reg c) sd a t k)"
proof (cases c)
  case Signal
  then show ?thesis by (simp add: filter_via_same via_frozen_here)
next
  case (Sub n p)
  have "via e \<noteq> c" if "e \<in> set (fst (frozen_invoke d p reg None a t k))" for e
    using via_frozen_invoke[OF that] not_own_ancestor[of c] Sub by auto
  then have "filter (\<lambda>e. via e = c) (fst (frozen_invoke d p reg None a t k)) = []"
    by (rule filter_via_other)
  moreover have "filter (\<lambda>e. via e = c) (fst (frozen_here d c (reg c) sd a t k))
                   = fst (frozen_here d c (reg c) sd a t k)"
    by (rule filter_via_same) (rule via_frozen_here)
  ultimately show ?thesis
    using assms frozen_then_ok[of "frozen_here d c (reg c) sd a t k" "frozen_invoke d p reg None a t k"]
    unfolding Sub by simp
qed

lemma frozen_invoke_via_ancestor:
  assumes "snd (frozen_invoke d c reg sd a t k)" and "x \<in> set (ancestors c)"
  shows "filter (\<lambda>e. via e = x) (fst (frozen_invoke d c reg sd a t k))
           = fst (frozen_here d x (reg x) None a t k)"
  using assms
proof (induction c arbitrary: sd)
  case Signal
  then show ?case by simp
next
  case (Sub n p)
  from Sub.prems(1) have ok: "snd (frozen_invoke d p reg None a t k)"
    and split: "fst (frozen_invoke d (Sub n p) reg sd a t k)
                  = fst (frozen_here d (Sub n p) (reg (Sub n p)) sd a t k)
                    @ fst (frozen_invoke d p reg None a t k)"
    using frozen_then_ok[of "frozen_here d (Sub n p) (reg (Sub n p)) sd a t k"
        "frozen_invoke d p reg None a t k"] by simp_all
  have "x \<noteq> Sub n p"
    using Sub.prems(2) not_own_ancestor[of "Sub n p"] by auto
  then have here: "filter (\<lambda>e. via e = x) (fst (frozen_here d (Sub n p) (reg (Sub n p)) sd a t k)) = []"
    by (intro filter_via_other) (auto dest: via_frozen_here)
  show ?case
  proof (cases "x = p")
    case True
    with frozen_invoke_via_self[OF ok] here split show ?thesis by simp
  next
    case False
    with Sub.prems(2) have "x \<in> set (ancestors p)" by simp
    from Sub.IH[OF ok this] here split show ?thesis by simp
  qed
qed

lemma frozen_invoke_ok_ancestor:
  assumes "snd (frozen_invoke d c reg sd a t k)" and "x \<in> set (ancestors c)"
  shows "snd (frozen_here d x (reg x) None a t k)"
  using assms
proof (induction c arbitrary: sd)
  case Signal
  then show ?case by simp
next
  case (Sub n p)
  from Sub.prems(1) have ok: "snd (frozen_invoke d p reg None a t k)"
    using frozen_then_ok[of "frozen_here d (Sub n p) (reg (Sub n p)) sd a t k"
        "frozen_invoke d p reg None a t k"] by simp
  show ?case
  proof (cases "x = p")
    case True
    with frozen_invoke_ok_here[OF ok] show ?thesis by simp
  next
    case False
    with Sub.prems(2) have "x \<in> set (ancestors p)" by simp
    from Sub.IH[OF ok this] show ?thesis .
  qed
qed

lemma general_in_here:
  assumes "snd (frozen_here d x (subs, isolated, ch) None a t k)"
  shows "set (frozen_general x subs a t k)
           \<subseteq> set (fst (frozen_here d x (subs, isolated, ch) None a t k))"
  using assms
  by (auto simp: frozen_here_def frozen_call_general_def split: if_splits dest!: frozen_then_ok)

lemma fold_bind_Raise: "fold (\<lambda>y r. bind r (f y)) ys (Raise e w) = Raise e w"
  by (induction ys) simp_all

lemma bind_Done:
  "bind r f = Done w' \<Longrightarrow> \<exists>w1. r = Done w1 \<and> f w1 = Done w'"
  by (cases r) simp_all

lemma cache_invoke_ancestor:
  assumes "x \<in> set (ancestors c)" and "is_cached x" and "invoke d c sd a t k w = Done w'"
  shows "cache (classes w' x) = cache (classes w x) @ [(a, t, k)]"
  using assms(1,3)
proof (induction c arbitrary: sd w)
  case Signal
  then show ?case by simp
next
  case (Sub n p)
  from Sub.prems(2) obtain w1 where w1: "dispatch_here d (Sub n p) sd a t k w = Done w1"
    and rest: "invoke d p None a t k w1 = Done w'"
    by (auto dest: bind_Done)
  have "x \<noteq> Sub n p"
    using Sub.prems(1) not_own_ancestor[of "Sub n p"] by auto
  then have c1: "cache (classes w1 x) = cache (classes w x)"
    using cache_dispatch_here[of d "Sub n p" sd a t k w x] w1 by simp
  show ?case
  proof (cases "x = p")
    case True
    with cache_invoke_self[OF assms(2), of d a t k w1] rest c1 show ?thesis by simp
  next
    case False
    with Sub.prems(1) have "x \<in> set (ancestors p)" by simp
    from Sub.IH[OF this rest] c1 show ?thesis by simp
  qed
qed

lemma cache_replay_ancestor:
  assumes "x \<in> set (ancestors c)" and "is_cached x"
  shows "fold (\<lambda>(pa, t, pk) r. bind r (invoke d c sd pa t pk)) es (Done w) = Done w' \<Longrightarrow>
         cache (classes w' x) = cache (classes w x) @ es"
proof (induction es arbitrary: w)
  case Nil
  then show ?case by simp
next
  case (Cons e es)
  obtain pa t pk where e: "e = (pa, t, pk)" by (cases e)
  show ?case
  proof (cases "invoke d c sd pa t pk w")
    case (Raise err w1)
    with Cons.prems e show ?thesis by (simp add: replay_lambda fold_bind_Raise)
  next
    case (Done w1)
    with Cons.prems e have "fold (\<lambda>(pa, t, pk) r. bind r (invoke d c sd pa t pk)) es (Done w1) = Done w'"
      by simp
    from Cons.IH[OF this] cache_invoke_ancestor[OF assms Done] e show ?thesis by simp
  qed
qed

text \<open>
  C10. During the replay to a new global subscriber of a cached class, every ancestor
  class makes, for every cached invocation in turn, the calls of one fresh dispatch of
  that invocation; so every global subscriber of the ancestor is called with every
  cached invocation.
\<close>

theorem replay_escalates_to_ancestors:
  assumes "is_cached c"
    and "on_subscribed d c False i data w = Done w'"
    and "x \<in> set (ancestors c)"
  shows "filter (\<lambda>e. via e = x) (drop (length (calls w)) (calls w'))
           = concat (map (\<lambda>(a, t, k). fst (frozen_here d x (live_registry w x) None a t k))
                       (cache (classes w c))) \<and>
         (\<forall>(a, t, k) \<in> set (cache (classes w c)).
            \<forall>(j, listener) \<in> set (subscribers (classes w x)).
              signal_call x a t k listener \<in> set (drop (length (calls w)) (calls w')))"
proof -
  let ?g = "\<lambda>(a, t, k). frozen_invoke d c (live_registry w) (Some [(i, data)]) a t k"
  let ?h = "\<lambda>(a, t, k). fst (frozen_here d x (live_registry w x) None a t k)"
  let ?es = "cache (classes w c)"
  let ?p = "fold (frozen_step ?g) ?es ([], True)"
  let ?T = "drop (length (calls w)) (calls w')"
  from agrees_on_subscribed[OF assms(1), of d i data w] assms(2)
  have ok: "snd ?p" and tr: "calls w' = calls w @ fst ?p"
    by (auto simp: agrees_def split: if_splits)
  have all_ok: "\<forall>e \<in> set es. snd (?g e)" if "snd (fold (frozen_step ?g) es (acc, True))" for es acc
    using that
  proof (induction es arbitrary: acc)
    case Nil then show ?case by simp
  next
    case (Cons e es)
    have stuck: "\<not> snd (fold (frozen_step ?g) ys (b, False))" for ys b
      by (induction ys) simp_all
    from Cons.prems stuck have e: "snd (?g e)" by (cases "snd (?g e)") auto
    with Cons show ?case by auto
  qed
  have oks: "\<forall>e \<in> set ?es. snd (?g e)" by (rule all_ok[OF ok])
  have T: "?T = concat (map (\<lambda>e. fst (?g e)) ?es)"
    using fold_frozen_ok[OF ok] tr by simp
  have via: "filter (\<lambda>e. via e = x) (concat (map (\<lambda>e. fst (?g e)) es)) = concat (map ?h es)"
    if "\<forall>e \<in> set es. snd (?g e)" for es
    using that
    by (induction es) (auto simp: frozen_invoke_via_ancestor[OF _ assms(3)])
  have first: "filter (\<lambda>e. via e = x) ?T = concat (map ?h ?es)"
    using via[OF oks] T by simp
  have second: "signal_call x a t k listener \<in> set ?T"
    if e: "(a, t, k) \<in> set ?es" and l: "(j, listener) \<in> set (subscribers (classes w x))"
    for a t k j listener
  proof -
    from oks e have "snd (frozen_invoke d c (live_registry w) (Some [(i, data)]) a t k)" by auto
    then have "snd (frozen_here d x (live_registry w x) None a t k)"
      by (rule frozen_invoke_ok_ancestor[OF _ assms(3)])
    then have "set (frozen_general x (subscribers (classes w x)) a t k)
                 \<subseteq> set (fst (frozen_here d x (live_registry w x) None a t k))"
      unfolding live_registry_def by (rule general_in_here)
    moreover have "signal_call x a t k listener \<in> set (frozen_general x (subscribers (classes w x)) a t k)"
      using l by (force simp: frozen_general_def)
    ultimately have "signal_call x a t k listener \<in> set (concat (map ?h ?es))"
      using e by force
    then have "signal_call x a t k listener \<in> set (filter (\<lambda>e. via e = x) ?T)"
      using first by simp
    then show ?thesis by simp
  qed
  show ?thesis
    using first second by blast
qed

subsection \<open>The replay on the recorded invocations\<close>

lemmas class_defs = ReplicableRegisteredSignal_def CachedSignal_def DisconnectSignal_def
  ReplicableUnregisteredSignal_def

lemma on_subscribed_returns:
  assumes "is_cached c"
    and "snd (fold (frozen_step (\<lambda>(a, t, k).
                    frozen_invoke d c (live_registry w) (Some [(i, data)]) a t k))
                 (cache (classes w c)) ([], True))"
  shows "on_subscribed d c False i data w = Done (world_of (on_subscribed d c False i data w))"
  using agrees_on_subscribed[OF assms(1), of d i data w] assms(2)
  by (cases "on_subscribed d c False i data w") (simp_all add: agrees_def)

lemmas replay_world_defs = class_defs replay_world_def contextual_world_def register_subtype_def
  live_registry_def frozen_here_def frozen_general_def frozen_call_general_def
  frozen_call_targets_def addressee_key_def target_value_def truthy_def

lemma replay_to_listener_returns:
  "on_subscribed 1 ReplicableRegisteredSignal False 5 (on_registered, True, True) replay_world
     = Done (world_of (on_subscribed 1 ReplicableRegisteredSignal False 5
                         (on_registered, True, True) replay_world))"
  by (rule on_subscribed_returns) (simp_all add: replay_world_defs)

theorem replay_escalates_to_ancestors_witness:
  "filter (\<lambda>e. via e = Signal)
     (drop (length (calls replay_world))
        (calls (world_of (on_subscribed 1 ReplicableRegisteredSignal False 5
                            (on_registered, True, True) replay_world))))
   = [signal_call Signal [PyInt 1] (Some 7) [] (on_any_signal, False, False),
      signal_call Signal [PyInt 2] None [] (on_any_signal, False, False)] \<and>
   signal_call Signal [PyInt 2] None [] (on_any_signal, False, False)
     \<in> set (drop (length (calls replay_world))
               (calls (world_of (on_subscribed 1 ReplicableRegisteredSignal False 5
                                   (on_registered, True, True) replay_world))))"
proof -
  have cached: "is_cached ReplicableRegisteredSignal"
    by (simp add: class_defs)
  have anc: "Signal \<in> set (ancestors ReplicableRegisteredSignal)"
    by (simp add: class_defs)
  from replay_escalates_to_ancestors[OF cached replay_to_listener_returns anc]
  show ?thesis
    by (simp add: replay_world_defs)
qed

lemma replay_world_settled:
  "replay_quiet ReplicableRegisteredSignal replay_world \<and>
   replay_returns 1 ReplicableRegisteredSignal replay_world"
  by (simp add: replay_quiet_def replay_returns_def quiet_def replay_world_defs
      on_registered_def on_joined_def on_any_signal_def)

lemma replay_world_calls:
  "replay_calls 1 ReplicableRegisteredSignal (live_registry replay_world)
     (to_subscribe_global (classes replay_world ReplicableRegisteredSignal))
     (cache (classes replay_world ReplicableRegisteredSignal))
   = [signal_call ReplicableRegisteredSignal [PyInt 1] (Some 7) [] (on_joined, False, False),
      signal_call Signal [PyInt 1] (Some 7) [] (on_any_signal, False, False),
      signal_call ReplicableRegisteredSignal [PyInt 2] None [] (on_joined, False, False),
      signal_call Signal [PyInt 2] None [] (on_any_signal, False, False),
      signal_call ReplicableRegisteredSignal [PyInt 1] (Some 7) [] (on_registered, True, True),
      signal_call Signal [PyInt 1] (Some 7) [] (on_any_signal, False, False),
      signal_call ReplicableRegisteredSignal [PyInt 2] None [] (on_registered, True, True),
      signal_call Signal [PyInt 2] None [] (on_any_signal, False, False)]"
  by (simp add: replay_calls_def replay_world_defs)

lemma replay_world_trace:
  "cache (classes (world_of (invoke 1 ReplicableRegisteredSignal None [PyInt 3] None []
                               replay_world)) ReplicableRegisteredSignal)
     = [([PyInt 1], Some 7, []), ([PyInt 2], None, []), ([PyInt 3], None, [])] \<and>
   (\<exists>r. update_state 1 ReplicableRegisteredSignal replay_world = Some r \<and>
      calls (world_of r) =
        [signal_call ReplicableRegisteredSignal [PyInt 1] (Some 7) [] (on_joined, False, False),
         signal_call Signal [PyInt 1] (Some 7) [] (on_any_signal, False, False),
         signal_call ReplicableRegisteredSignal [PyInt 2] None [] (on_joined, False, False),
         signal_call Signal [PyInt 2] None [] (on_any_signal, False, False),
         signal_call ReplicableRegisteredSignal [PyInt 1] (Some 7) [] (on_registered, True, True),
         signal_call Signal [PyInt 1] (Some 7) [] (on_any_signal, False, False),
         signal_call ReplicableRegisteredSignal [PyInt 2] None [] (on_registered, True, True),
         signal_call Signal [PyInt 2] None [] (on_any_signal, False, False)]) \<and>
   (\<exists>r. update_state 1 ReplicableRegisteredSignal contextual_world = Some r \<and>
      calls (world_of r) = [])"
proof -
  have cached: "is_cached ReplicableRegisteredSignal"
    by (simp add: class_defs)
  have start: "calls replay_world = []" "calls contextual_world = []"
    "to_subscribe_global (classes contextual_world ReplicableRegisteredSignal) = []"
    "cache (classes replay_world ReplicableRegisteredSignal)
       = [([PyInt 1], Some 7, []), ([PyInt 2], None, [])]"
    by (simp_all add: replay_world_def contextual_world_def register_subtype_def class_defs)
  from update_state_replays_cache[OF cached, of 1 "[PyInt 3]" None "[]" replay_world]
    update_state_replays_cache[OF cached, of 1 "[PyInt 3]" None "[]" contextual_world]
    replay_world_settled
  show ?thesis
    unfolding replay_world_calls by (auto simp: start)
qed

subsection \<open>A replay is cached again by the ancestors\<close>

text \<open>
  What a replay leaves in the caches of the ancestors: when the replay to a new global
  subscriber returns, every ancestor that is itself cached has appended every cached
  invocation to its own cache once more.
\<close>

lemma replay_appends_to_cached_ancestors:
  assumes "is_cached c" and "on_subscribed d c False i data w = Done w'"
    and "x \<in> set (ancestors c)" and "is_cached x"
  shows "cache (classes w' x) = cache (classes w x) @ cache (classes w c)"
proof -
  have "fold (\<lambda>(pa, t, pk) r. bind r (invoke d c (Some [(i, data)]) pa t pk))
          (cache (classes w c)) (Done w) = Done w'"
    using assms(1,2) by (simp add: on_subscribed_def)
  then show ?thesis by (rule cache_replay_ancestor[OF assms(3,4)])
qed

text \<open>
  C3. \<^verbatim>\<open>ReplicableRegisteredSignal\<close> is invoked once, with the argument 1. Listener 5
  subscribes to it globally and \<^verbatim>\<open>update_state\<close> of \<^verbatim>\<open>ReplicableRegisteredSignal\<close> replays
  the invocation to listener 5; the replay goes on to \<^verbatim>\<open>CachedSignal.invoke\<close> through
  \<^verbatim>\<open>invoke_parent\<close>, without \<^verbatim>\<open>subscriber_data\<close>, and \<^verbatim>\<open>CachedSignal\<close> appends the
  invocation to its cache a second time. Listener 6 then subscribes globally to
  \<^verbatim>\<open>CachedSignal\<close>, and \<^verbatim>\<open>update_state\<close> of \<^verbatim>\<open>CachedSignal\<close> calls its callback twice with
  the one invocation that was made.
\<close>

theorem replay_is_cached_again:
  "map_option (\<lambda>w. (cache (classes w CachedSignal),
                     filter (\<lambda>e. callee e = on_cached) (calls w)))
     (Option.bind
        (returned (update_state 1 ReplicableRegisteredSignal
           (subscribe 5 on_joined
              (world_of (invoke 1 ReplicableRegisteredSignal None [PyInt 1] None []
                           initial_world)))))
        (\<lambda>w. returned (update_state 1 CachedSignal (subscribe 6 on_cached w))))
   = Some ([([PyInt 1], None, []), ([PyInt 1], None, [])],
           [signal_call CachedSignal [PyInt 1] None [] (on_cached, False, False),
            signal_call CachedSignal [PyInt 1] None [] (on_cached, False, False)])"
  by code_simp

section \<open>Properties of a staged batch\<close>


end
